theory Spec2Isabelle
  imports Main "HOL-Library.Sublist"
begin

section \<open>Strings of the host language\<close>

text \<open>
  A string of the program is a sequence of UTF-16 code units; a code unit is modelled by
  its number (the host's are below 65536, and nothing here depends on that bound).
  Literals of the source are written through \<open>js\<close>, which maps each ASCII character to
  its code unit.
\<close>

type_synonym jschar = nat
type_synonym jsstring = "jschar list"

definition js :: "string \<Rightarrow> jsstring" where
  "js s = map of_char s"

text \<open>The character classes used by the patterns of the source.\<close>

definition is_digit :: "jschar \<Rightarrow> bool" where
  \<comment> \<open>\<open>\d\<close>: the ten ASCII digits\<close>
  "is_digit c \<longleftrightarrow> 48 \<le> c \<and> c \<le> 57"

definition is_sep :: "jschar \<Rightarrow> bool" where
  \<comment> \<open>\<open>[\/\-]\<close>\<close>
  "is_sep c \<longleftrightarrow> c = 47 \<or> c = 45"

definition is_colon :: "jschar \<Rightarrow> bool" where
  "is_colon c \<longleftrightarrow> c = 58"

definition is_space :: "jschar \<Rightarrow> bool" where
  \<comment> \<open>\<open>\s\<close>, and what \<open>trim\<close> strips: white space and line terminators\<close>
  "is_space c \<longleftrightarrow>
     c \<in> {9, 10, 11, 12, 13, 32, 160, 5760, 8232, 8233, 8239, 8287, 12288, 65279}
     \<or> (8192 \<le> c \<and> c \<le> 8202)"

definition is_word :: "jschar \<Rightarrow> bool" where
  \<comment> \<open>the word characters that \<open>\b\<close> looks at: letters, digits, underscore\<close>
  "is_word c \<longleftrightarrow>
     (97 \<le> c \<and> c \<le> 122) \<or> (65 \<le> c \<and> c \<le> 90)
     \<or> (48 \<le> c \<and> c \<le> 57) \<or> c = 95"

definition ci :: "nat \<Rightarrow> jschar \<Rightarrow> bool" where
  \<comment> \<open>an upper-case ASCII letter of a pattern under the \<open>i\<close> flag: the letter in either case\<close>
  "ci u c \<longleftrightarrow> c = u \<or> c = u + 32"

definition trim :: "jsstring \<Rightarrow> jsstring" where
  "trim s = rev (dropWhile is_space (rev (dropWhile is_space s)))"

definition upper :: "jschar \<Rightarrow> jschar" where
  "upper c = (if 97 \<le> c \<and> c \<le> 122 then c - 32 else c)"

definition toUpperCase :: "jsstring \<Rightarrow> jsstring" where
  \<comment> \<open>only ever applied to the text of the meridiem group, which holds ASCII letters\<close>
  "toUpperCase s = map upper s"

section \<open>Backtracking pattern matching\<close>

text \<open>
  A pattern of the source is a term of \<open>rx\<close>. Quantifiers are greedy, alternatives are
  tried left to right, and the first way of matching that succeeds is the match: \<open>ms\<close>
  lists every way of matching a pattern at a position, in the order in which a
  backtracking matcher tries them, so the head of the list is the match it reports.
  A state is the code unit before the position, the rest of the input, and the
  capture groups set so far (most recent first).
\<close>

datatype rx =
    Cls "jschar \<Rightarrow> bool"
  | Seq rx rx
  | Alt rx rx
  | Rep nat nat rx
  | Plus "jschar \<Rightarrow> bool"
  | Group nat rx
  | WordB

abbreviation Opt :: "rx \<Rightarrow> rx" where
  "Opt r \<equiv> Rep 0 1 r"

type_synonym caps = "(nat \<times> jsstring) list"
type_synonym mstate = "jschar option \<times> jsstring \<times> caps"

fun reps :: "(mstate \<Rightarrow> mstate list) \<Rightarrow> nat \<Rightarrow> nat \<Rightarrow> mstate \<Rightarrow> mstate list" where
  "reps f lo 0 st = (if lo = 0 then [st] else [])"
| "reps f lo (Suc n) st =
     concat (map (reps f (lo - 1) n) (f st)) @ (if lo = 0 then [st] else [])"

fun many1 :: "(jschar \<Rightarrow> bool) \<Rightarrow> jsstring \<Rightarrow> (jschar option \<times> jsstring) list" where
  "many1 p [] = []"
| "many1 p (c # cs) = (if p c then many1 p cs @ [(Some c, cs)] else [])"

definition boundary :: "jschar option \<Rightarrow> jsstring \<Rightarrow> bool" where
  "boundary pv rs \<longleftrightarrow>
     (case pv of None \<Rightarrow> False | Some c \<Rightarrow> is_word c)
       \<noteq> (case rs of [] \<Rightarrow> False | c # _ \<Rightarrow> is_word c)"

fun ms :: "rx \<Rightarrow> mstate \<Rightarrow> mstate list" where
  "ms (Cls p) (pv, rs, cp) =
     (case rs of [] \<Rightarrow> [] | c # cs \<Rightarrow> if p c then [(Some c, cs, cp)] else [])"
| "ms (Seq a b) st = concat (map (ms b) (ms a st))"
| "ms (Alt a b) st = ms a st @ ms b st"
| "ms (Rep lo hi r) st = reps (ms r) lo hi st"
| "ms (Plus p) (pv, rs, cp) = map (\<lambda>(pv', rs'). (pv', rs', cp)) (many1 p rs)"
| "ms (Group n r) (pv, rs, cp) =
     map (\<lambda>(pv', rs', cp'). (pv', rs', (n, take (length rs - length rs') rs) # cp'))
       (ms r (pv, rs, cp))"
| "ms WordB (pv, rs, cp) = (if boundary pv rs then [(pv, rs, cp)] else [])"

text \<open>
  The result of a successful search: the text before the match, the matched text,
  the text after it, and the capture groups.
\<close>

record rmatch =
  before :: jsstring
  whole :: jsstring
  after :: jsstring
  groups :: caps

definition grp :: "rmatch \<Rightarrow> nat \<Rightarrow> jsstring option" where
  "grp m n = map_of (groups m) n"

definition last_opt :: "jsstring \<Rightarrow> jschar option" where
  "last_opt s = (if s = [] then None else Some (last s))"

text \<open>
  \<open>String.prototype.match\<close> without the \<open>g\<close> flag: the pattern is tried at every index
  from the left, the end of the input included, and the first index where it matches wins.
\<close>

fun scan :: "rx \<Rightarrow> jsstring \<Rightarrow> jsstring \<Rightarrow> rmatch option" where
  "scan r pre rest =
     (case ms r (last_opt pre, rest, []) of
        (pv, rs', cp) # _ \<Rightarrow>
          Some \<lparr>before = pre, whole = take (length rest - length rs') rest,
                after = rs', groups = cp\<rparr>
      | [] \<Rightarrow> (case rest of [] \<Rightarrow> None | c # cs \<Rightarrow> scan r (pre @ [c]) cs))"

declare scan.simps [simp del]

definition match :: "rx \<Rightarrow> jsstring \<Rightarrow> rmatch option" where
  "match r s = scan r [] s"

section \<open>The patterns of the source\<close>

abbreviation D :: rx where
  "D \<equiv> Cls is_digit"

definition meridiem :: rx where
  \<comment> \<open>\<open>AM|PM\<close> under the \<open>i\<close> flag\<close>
  "meridiem = Alt (Seq (Cls (ci 65)) (Cls (ci 77))) (Seq (Cls (ci 80)) (Cls (ci 77)))"

definition dateTimeRegex :: rx where
  \<comment> \<open>\<open>/(\d{1,2}[\/\-]\d{1,2}[\/\-]\d{2,4})(\s+\d{1,2}:\d{2}\s?(AM|PM)?)?/i\<close>\<close>
  "dateTimeRegex =
     Seq (Group 1 (Seq (Rep 1 2 D) (Seq (Cls is_sep) (Seq (Rep 1 2 D)
            (Seq (Cls is_sep) (Rep 2 4 D))))))
         (Opt (Group 2 (Seq (Plus is_space) (Seq (Rep 1 2 D) (Seq (Cls is_colon)
            (Seq (Rep 2 2 D) (Seq (Opt (Cls is_space)) (Opt (Group 3 meridiem)))))))))"

definition timeRegex :: rx where
  \<comment> \<open>\<open>/\b\d{1,2}:\d{2}\s?(AM|PM)\b/i\<close>\<close>
  "timeRegex =
     Seq WordB (Seq (Rep 1 2 D) (Seq (Cls is_colon) (Seq (Rep 2 2 D)
       (Seq (Opt (Cls is_space)) (Seq (Group 1 meridiem) WordB)))))"

definition dateMatchRegex :: rx where
  \<comment> \<open>\<open>/(\d{1,2})[\/\-](\d{1,2})[\/\-](\d{2,4})/\<close>\<close>
  "dateMatchRegex =
     Seq (Group 1 (Rep 1 2 D)) (Seq (Cls is_sep) (Seq (Group 2 (Rep 1 2 D))
       (Seq (Cls is_sep) (Group 3 (Rep 2 4 D)))))"

definition timeMatchRegex :: rx where
  \<comment> \<open>\<open>/(\d{1,2}):(\d{2})\s?(AM|PM)?/i\<close>\<close>
  "timeMatchRegex =
     Seq (Group 1 (Rep 1 2 D)) (Seq (Cls is_colon) (Seq (Group 2 (Rep 2 2 D))
       (Seq (Opt (Cls is_space)) (Opt (Group 3 meridiem)))))"

section \<open>Extraction at insert\<close>

definition extractDateTime :: "jsstring \<Rightarrow> jsstring option" where
  \<comment> \<open>\<open>text.match(regex)?.[0] || null\<close>: an empty match would be falsy\<close>
  "extractDateTime txt =
     (case match dateTimeRegex txt of
        None \<Rightarrow> None
      | Some m \<Rightarrow> if whole m = [] then None else Some (whole m))"

definition extractTimeOnly :: "jsstring \<Rightarrow> jsstring option" where
  "extractTimeOnly txt =
     (case match timeRegex txt of
        None \<Rightarrow> None
      | Some m \<Rightarrow> if whole m = [] then None else Some (whole m))"

definition removeDateTime :: "jsstring \<Rightarrow> jsstring" where
  \<comment> \<open>\<open>replace\<close> with a pattern without the \<open>g\<close> flag replaces the first match only\<close>
  "removeDateTime txt =
     trim (case match dateTimeRegex txt of
             None \<Rightarrow> txt
           | Some m \<Rightarrow> before m @ after m)"

text \<open>The local calendar day read from the clock: \<open>getDate()\<close>, \<open>getMonth()\<close>, \<open>getFullYear()\<close>.\<close>

record localdate =
  getDate :: nat
  getMonth :: nat
  getFullYear :: nat

fun digits_of :: "nat \<Rightarrow> jsstring" where
  \<comment> \<open>\<open>String(n)\<close> for a natural number\<close>
  "digits_of n =
     (if n < 10 then [48 + n]
      else digits_of (n div 10) @ [48 + n mod 10])"

declare digits_of.simps [simp del]

definition padStart2 :: "jsstring \<Rightarrow> jsstring" where
  \<comment> \<open>\<open>padStart(2, "0")\<close>\<close>
  "padStart2 s = (if length s < 2 then replicate (2 - length s) 48 @ s else s)"

definition getTodayDate :: "localdate \<Rightarrow> jsstring" where
  "getTodayDate d =
     (let dd = padStart2 (digits_of (getDate d));
          mm = padStart2 (digits_of (getMonth d + 1));
          yyyy = digits_of (getFullYear d)
      in dd @ [45] @ mm @ [45] @ yyyy)"

section \<open>Parsing at notify\<close>

text \<open>
  A number of the host is an integer or NaN (\<open>None\<close>). \<open>parseInt(s, 10)\<close> skips leading
  white space, reads an optional sign and the longest run of digits, and is NaN when
  there is no digit; on a group that did not take part in the match it is NaN too.
\<close>

definition digits_val :: "jsstring \<Rightarrow> int" where
  "digits_val ds = foldl (\<lambda>a c. 10 * a + (int c - 48)) 0 ds"

definition parseInt :: "jsstring option \<Rightarrow> int option" where
  "parseInt arg =
     (case arg of
        None \<Rightarrow> None
      | Some s \<Rightarrow>
          (let s1 = dropWhile is_space s;
               neg = (s1 \<noteq> [] \<and> hd s1 = 45);
               s2 = (if s1 \<noteq> [] \<and> (hd s1 = 45 \<or> hd s1 = 43) then tl s1 else s1);
               ds = takeWhile is_digit s2
           in if ds = [] then None
              else Some (if neg then - digits_val ds else digits_val ds)))"

text \<open>
  A \<open>Date\<close> object is the list of arguments its constructor was given (year, month, day,
  hours, minutes; seconds and milliseconds are always 0), or the invalid date that the
  constructor builds from a NaN argument.
\<close>

datatype jsdate = InvalidDate | Date int int int int int

definition newDate ::
  "int option \<Rightarrow> int option \<Rightarrow> int option \<Rightarrow> int option \<Rightarrow> int option \<Rightarrow> jsdate" where
  "newDate year month day hours minutes =
     (case (year, month, day, hours, minutes) of
        (Some y, Some m, Some d, Some h, Some mi) \<Rightarrow> Date y m d h mi
      | _ \<Rightarrow> InvalidDate)"

definition parseUserDate :: "jsstring option \<Rightarrow> jsdate option" where
  "parseUserDate userDateStr =
     (case userDateStr of
        None \<Rightarrow> None
      | Some s \<Rightarrow>
          if s = [] then None
          else
            (case match dateMatchRegex s of
               None \<Rightarrow> None
             | Some dateMatch \<Rightarrow>
                 (let day = parseInt (grp dateMatch 1);
                      month = map_option (\<lambda>m. m - 1) (parseInt (grp dateMatch 2));
                      year = map_option (\<lambda>y. if y < 100 then y + 2000 else y)
                               (parseInt (grp dateMatch 3));
                      (hours, minutes) =
                        (case match timeMatchRegex s of
                           None \<Rightarrow> (Some 0, Some 0)
                         | Some timeMatch \<Rightarrow>
                             (let hours = parseInt (grp timeMatch 1);
                                  minutes = parseInt (grp timeMatch 2)
                              in case grp timeMatch 3 of
                                   None \<Rightarrow> (hours, minutes)
                                 | Some period \<Rightarrow>
                                     if period = [] then (hours, minutes)
                                     else if toUpperCase period = js ''PM'' \<and> hours \<noteq> Some 12
                                       then (map_option (\<lambda>h. h + 12) hours, minutes)
                                     else if toUpperCase period = js ''AM'' \<and> hours = Some 12
                                       then (Some 0, minutes)
                                     else (hours, minutes)))
                  in Some (newDate year month day hours minutes))))"

section \<open>Tasks and the reminder loop\<close>

record task =
  task_id :: int
  task_text :: jsstring
  userDate :: "jsstring option"
  completed :: bool

text \<open>
  The host of the page. The global \<open>Notification\<close> need not be declared (the component
  tests \<open>"Notification" in window\<close> before it reads or requests the permission), and
  reading an undeclared global throws a \<open>ReferenceError\<close>. Where it is declared it has a
  permission, and its constructor returns or throws a \<open>TypeError\<close> (hosts that allow
  notifications from a service worker only).
\<close>

datatype permission = Granted | Denied | Default

datatype host = Undeclared | Declared permission bool

datatype error = ReferenceError | TypeError

text \<open>
  The state of the reminder loop: the set held by \<open>notifiedTasksRef\<close>, the tasks for which
  \<open>showToast\<close> has put up the in-app reminder, and the tasks for which a browser
  notification has been constructed, oldest first.
\<close>

record reminder =
  notified :: "int set"
  toasts :: "task list"
  browser :: "task list"

text \<open>
  A piece of the loop returns with the state it has reached, or throws with the state it
  had reached when the exception left it.
\<close>

datatype outcome = Returned reminder | Thrown error reminder

fun state_of :: "outcome \<Rightarrow> reminder" where
  "state_of (Returned st) = st"
| "state_of (Thrown e st) = st"

text \<open>
  \<open>getTime()\<close> of a date: the host's conversion \<open>tv\<close> of local calendar fields to
  milliseconds since the epoch, NaN for the invalid date.
\<close>

type_synonym timevalue = "int \<Rightarrow> int \<Rightarrow> int \<Rightarrow> int \<Rightarrow> int \<Rightarrow> int"

definition getTime :: "timevalue \<Rightarrow> jsdate \<Rightarrow> int option" where
  "getTime tv d = (case d of InvalidDate \<Rightarrow> None | Date y m dd h mi \<Rightarrow> Some (tv y m dd h mi))"

definition showToast :: "task \<Rightarrow> reminder \<Rightarrow> reminder" where
  \<comment> \<open>sets the toast; the sound is played inside \<open>try\<close>/\<open>catch\<close>, so nothing is thrown\<close>
  "showToast t st = st\<lparr>toasts := toasts st @ [t]\<rparr>"

definition sendNotification :: "host \<Rightarrow> task \<Rightarrow> reminder \<Rightarrow> outcome" where
  \<comment> \<open>\<open>if (Notification.permission === "granted") { new Notification(\<dots>) \<dots> }\<close>, unguarded\<close>
  "sendNotification h t st =
     (case h of
        Undeclared \<Rightarrow> Thrown ReferenceError st
      | Declared p constructs \<Rightarrow>
          if p = Granted
          then (if constructs then Returned (st\<lparr>browser := browser st @ [t]\<rparr>)
                else Thrown TypeError st)
          else Returned st)"

definition checkDueTask :: "host \<Rightarrow> timevalue \<Rightarrow> int \<Rightarrow> reminder \<Rightarrow> task \<Rightarrow> outcome" where
  \<comment> \<open>the body of \<open>tasks.forEach\<close> in \<open>checkDueTasks\<close>\<close>
  "checkDueTask h tv now st t =
     (if completed t \<or> task_id t \<in> notified st then Returned st
      else
        (case parseUserDate (userDate t) of
           None \<Rightarrow> Returned st
         | Some taskDate \<Rightarrow>
             (case getTime tv taskDate of
                None \<Rightarrow> Returned st
              | Some due \<Rightarrow>
                  (let timeDiff = due - now
                   in if timeDiff \<ge> - 5000 \<and> timeDiff \<le> 5000
                      then (case sendNotification h t (showToast t st) of
                              Thrown e st' \<Rightarrow> Thrown e st'
                            | Returned st' \<Rightarrow>
                                Returned (st'\<lparr>notified := insert (task_id t) (notified st')\<rparr>))
                      else Returned st))))"

text \<open>\<open>Array.prototype.forEach\<close>: an exception thrown by the callback ends the iteration.\<close>

fun forEach :: "(reminder \<Rightarrow> task \<Rightarrow> outcome) \<Rightarrow> task list \<Rightarrow> reminder \<Rightarrow> outcome" where
  "forEach f [] st = Returned st"
| "forEach f (t # ts) st =
     (case f st t of
        Returned st' \<Rightarrow> forEach f ts st'
      | Thrown e st' \<Rightarrow> Thrown e st')"

definition checkDueTasks :: "host \<Rightarrow> timevalue \<Rightarrow> int \<Rightarrow> task list \<Rightarrow> reminder \<Rightarrow> outcome" where
  "checkDueTasks h tv now tasks st = forEach (checkDueTask h tv now) tasks st"

text \<open>
  A session is a sequence of ticks, the calls of \<open>checkDueTasks\<close> that the interval timer
  makes; each tick sees the host, the clock and the task list of that moment (the list
  changes between ticks when tasks are added, edited or reloaded, the permission when
  the user answers the prompt). An exception that leaves a tick is reported by the
  timer, which keeps running: the next tick starts from the state the failed one had
  reached.
\<close>

definition session :: "timevalue \<Rightarrow> (host \<times> int \<times> task list) list \<Rightarrow> reminder \<Rightarrow> reminder" where
  "session tv ticks st =
     foldl (\<lambda>s (h, now, tasks). state_of (checkDueTasks h tv now tasks s)) st ticks"

definition start :: reminder where
  "start = \<lparr>notified = {}, toasts = [], browser = []\<rparr>"

section \<open>Adding a task\<close>

record row =
  row_text :: jsstring
  row_userDate :: "jsstring option"
  row_completed :: bool

definition addTask :: "localdate \<Rightarrow> jsstring \<Rightarrow> row option" where
  \<comment> \<open>the row inserted into the store; \<open>None\<close> when the input is blank and nothing is inserted\<close>
  "addTask today newTask =
     (if trim newTask = [] then None
      else
        (let fullDate = extractDateTime newTask;
             timeOnly = extractTimeOnly newTask;
             finalDate = (if fullDate = None \<and> timeOnly \<noteq> None
                          then Some (getTodayDate today) else fullDate)
         in Some \<lparr>row_text = removeDateTime newTask, row_userDate = finalDate,
                  row_completed = False\<rparr>))"

section \<open>The filter\<close>

definition filteredTasks :: "jsstring \<Rightarrow> task list \<Rightarrow> task list" where
  "filteredTasks flt tasks =
     filter (\<lambda>t. if flt = js ''all'' then True
                 else if flt = js ''active'' then \<not> completed t
                 else if flt = js ''completed'' then completed t
                 else True) tasks"

section \<open>Notions used to state the properties\<close>

text \<open>
  The strings a pattern can match, read off the pattern alone (a word boundary matches
  the empty string here; whether it holds depends on the context).
\<close>

fun lang :: "rx \<Rightarrow> jsstring set" where
  "lang (Cls p) = {[c] | c. p c}"
| "lang (Seq a b) = {u @ v | u v. u \<in> lang a \<and> v \<in> lang b}"
| "lang (Alt a b) = lang a \<union> lang b"
| "lang (Rep lo hi r) = {concat ws | ws. lo \<le> length ws \<and> length ws \<le> hi \<and> set ws \<subseteq> lang r}"
| "lang (Plus p) = {w. w \<noteq> [] \<and> (\<forall>c\<in>set w. p c)}"
| "lang (Group n r) = lang r"
| "lang WordB = {[]}"

fun wbfree :: "rx \<Rightarrow> bool" where
  "wbfree (Cls p) = True"
| "wbfree (Seq a b) = (wbfree a \<and> wbfree b)"
| "wbfree (Alt a b) = (wbfree a \<and> wbfree b)"
| "wbfree (Rep lo hi r) = wbfree r"
| "wbfree (Plus p) = True"
| "wbfree (Group n r) = wbfree r"
| "wbfree WordB = False"

definition lastopt :: "jschar option \<Rightarrow> jsstring \<Rightarrow> jschar option" where
  \<comment> \<open>the code unit before the position after \<open>w\<close> has been read\<close>
  "lastopt pv w = (if w = [] then pv else Some (last w))"

fun nogroup :: "rx \<Rightarrow> bool" where
  "nogroup (Cls p) = True"
| "nogroup (Seq a b) = (nogroup a \<and> nogroup b)"
| "nogroup (Alt a b) = (nogroup a \<and> nogroup b)"
| "nogroup (Rep lo hi r) = nogroup r"
| "nogroup (Plus p) = True"
| "nogroup (Group n r) = False"
| "nogroup WordB = True"

text \<open>
  The shapes of the specification, in its own words. A date segment is one or two digits,
  a separator, one or two digits, a separator, two to four digits. A meridiem marker is
  AM or PM in either case. A clock time is one or two digits, a colon, two digits. A
  time segment is white space, a clock time, and optionally a meridiem marker; a single
  white-space character may stand before the marker. A date with optional time is a date
  segment, alone or followed by a time segment. (Where the specification writes a space
  between the parts, white space is read here as generously as the code allows: one or
  more white-space characters before the clock time, at most one before the marker.)
\<close>

definition digit_run :: "nat \<Rightarrow> nat \<Rightarrow> jsstring \<Rightarrow> bool" where
  "digit_run lo hi w \<longleftrightarrow> lo \<le> length w \<and> length w \<le> hi \<and> (\<forall>c\<in>set w. is_digit c)"

definition date_segment :: "jsstring \<Rightarrow> bool" where
  "date_segment w \<longleftrightarrow>
     (\<exists>d a m b y. w = d @ a # m @ b # y \<and> digit_run 1 2 d \<and> is_sep a
        \<and> digit_run 1 2 m \<and> is_sep b \<and> digit_run 2 4 y)"

definition meridiem_marker :: "jsstring \<Rightarrow> bool" where
  "meridiem_marker w \<longleftrightarrow> (\<exists>c1 c2. w = [c1, c2] \<and> (ci 65 c1 \<or> ci 80 c1) \<and> ci 77 c2)"

definition clock_time :: "jsstring \<Rightarrow> bool" where
  "clock_time w \<longleftrightarrow>
     (\<exists>h c mi. w = h @ c # mi \<and> digit_run 1 2 h \<and> is_colon c \<and> digit_run 2 2 mi)"

definition time_segment :: "jsstring \<Rightarrow> bool" where
  "time_segment w \<longleftrightarrow>
     (\<exists>ws t sp mer. w = ws @ t @ sp @ mer
        \<and> ws \<noteq> [] \<and> (\<forall>x\<in>set ws. is_space x) \<and> clock_time t
        \<and> ((sp = [] \<and> mer = [])
           \<or> ((sp = [] \<or> (\<exists>x. sp = [x] \<and> is_space x)) \<and> meridiem_marker mer)))"

definition date_time :: "jsstring \<Rightarrow> bool" where
  "date_time w \<longleftrightarrow> date_segment w \<or> (\<exists>d t. w = d @ t \<and> date_segment d \<and> time_segment t)"

text \<open>
  What the pattern of \<open>extractDateTime\<close> accepts is not quite that shape. In the pattern
  the white-space character after the minutes and the marker are optional independently
  of each other, so the accepted time part may end in a white-space character that no
  marker follows. \<open>accepted_time\<close> and \<open>accepted_date_time\<close> describe the accepted strings;
  they are the shapes above and, in addition, a date with a time without marker followed
  by one white-space character.
\<close>

definition accepted_time :: "jsstring \<Rightarrow> bool" where
  "accepted_time w \<longleftrightarrow>
     (\<exists>ws h c mi sp mer. w = ws @ h @ c # mi @ sp @ mer
        \<and> ws \<noteq> [] \<and> (\<forall>x\<in>set ws. is_space x) \<and> digit_run 1 2 h \<and> is_colon c
        \<and> digit_run 2 2 mi \<and> (sp = [] \<or> (\<exists>x. sp = [x] \<and> is_space x))
        \<and> (mer = [] \<or> meridiem_marker mer))"

definition accepted_date_time :: "jsstring \<Rightarrow> bool" where
  "accepted_date_time w \<longleftrightarrow>
     date_segment w \<or> (\<exists>d t. w = d @ t \<and> date_segment d \<and> accepted_time t)"

text \<open>
  A standalone time with meridiem marker: one or two digits, a colon, two digits,
  optionally one white space character, then AM or PM, neither preceded nor followed by
  a word character (a letter, a digit or an underscore).
\<close>

definition standalone_time :: "jsstring \<Rightarrow> bool" where
  "standalone_time s \<longleftrightarrow>
     (\<exists>pre h c mi sp mer post. s = pre @ h @ c # mi @ sp @ mer @ post
        \<and> digit_run 1 2 h \<and> is_colon c \<and> digit_run 2 2 mi
        \<and> (sp = [] \<or> (\<exists>x. sp = [x] \<and> is_space x)) \<and> meridiem_marker mer
        \<and> (pre = [] \<or> \<not> is_word (last pre)) \<and> (post = [] \<or> \<not> is_word (hd post)))"

definition occurs :: "(jsstring \<Rightarrow> bool) \<Rightarrow> jsstring \<Rightarrow> bool" where
  \<comment> \<open>\<open>s\<close> has a substring of shape \<open>P\<close>\<close>
  "occurs P s \<longleftrightarrow> (\<exists>pre w post. s = pre @ w @ post \<and> P w)"

text \<open>
  The conversions of the specification: a year below 100 gets 2000 added; on a 12-hour
  clock, 12 AM is 0, 12 PM stays 12, another PM hour gets 12 added, another AM hour is
  unchanged, and without a marker the hour is taken as it is.
\<close>

definition full_year :: "int \<Rightarrow> int" where
  "full_year y = (if y < 100 then y + 2000 else y)"

definition hour24 :: "int \<Rightarrow> jsstring \<Rightarrow> int" where
  "hour24 h mer =
     (if mer = [] then h
      else if ci 80 (hd mer) then (if h = 12 then 12 else h + 12)
      else (if h = 12 then 0 else h))"


text \<open>
  The two spellings of the marker, in either case of each letter.
\<close>

definition am_marker :: "jsstring \<Rightarrow> bool" where
  "am_marker mer \<longleftrightarrow> mer \<in> {js ''AM'', js ''am'', js ''Am'', js ''aM''}"

definition pm_marker :: "jsstring \<Rightarrow> bool" where
  "pm_marker mer \<longleftrightarrow> mer \<in> {js ''PM'', js ''pm'', js ''Pm'', js ''pM''}"

text \<open>
  Which date and which time of a string are meant. \<open>first_date s d mo y\<close>: the leftmost
  date segment of \<open>s\<close> has the day digits \<open>d\<close>, the month digits \<open>mo\<close> and the year digits
  \<open>y\<close>, the year taking as many digits as it can (four, or all there are).
  \<open>first_time s h mi mer\<close>: the leftmost clock time of \<open>s\<close>, wherever it stands, has the
  hour digits \<open>h\<close> and the minute digits \<open>mi\<close>, and \<open>mer\<close> is the meridiem marker that
  follows the minutes directly or after one white-space character, empty if there is
  none.
\<close>

definition marker_after :: "jsstring \<Rightarrow> jsstring" where
  "marker_after rest =
     (if meridiem_marker (take 2 rest) then take 2 rest
      else if rest \<noteq> [] \<and> is_space (hd rest) \<and> meridiem_marker (take 2 (tl rest))
        then take 2 (tl rest)
      else [])"

definition first_date :: "jsstring \<Rightarrow> jsstring \<Rightarrow> jsstring \<Rightarrow> jsstring \<Rightarrow> bool" where
  "first_date s d mo y \<longleftrightarrow>
     (\<exists>pre a b post. s = pre @ d @ a # mo @ b # y @ post
        \<and> digit_run 1 2 d \<and> is_sep a \<and> digit_run 1 2 mo \<and> is_sep b \<and> digit_run 2 4 y
        \<and> (length y = 4 \<or> post = [] \<or> \<not> is_digit (hd post))
        \<and> (\<forall>pre' w post'. s = pre' @ w @ post' \<and> date_segment w \<longrightarrow> length pre \<le> length pre'))"

definition first_time :: "jsstring \<Rightarrow> jsstring \<Rightarrow> jsstring \<Rightarrow> jsstring \<Rightarrow> bool" where
  "first_time s h mi mer \<longleftrightarrow>
     (\<exists>pre c rest. s = pre @ h @ c # mi @ rest
        \<and> digit_run 1 2 h \<and> is_colon c \<and> digit_run 2 2 mi \<and> mer = marker_after rest
        \<and> (\<forall>pre' w post'. s = pre' @ w @ post' \<and> clock_time w \<longrightarrow> length pre \<le> length pre'))"


text \<open>
  The transition \<open>pending \<rightarrow> fired\<close> of the reminder loop as the specification words it:
  the due date parses, the difference to now lies within five seconds either way, the
  task is not completed, and its id is not in the fired set.
\<close>

definition fires :: "timevalue \<Rightarrow> int \<Rightarrow> reminder \<Rightarrow> task \<Rightarrow> bool" where
  "fires tv now st t \<longleftrightarrow>
     \<not> completed t \<and> task_id t \<notin> notified st
     \<and> (\<exists>y m d h mi. parseUserDate (userDate t) = Some (Date y m d h mi)
           \<and> - 5000 \<le> tv y m d h mi - now \<and> tv y m d h mi - now \<le> 5000)"


text \<open>
  \<open>returns h\<close>: on host \<open>h\<close> the call of \<open>sendNotification\<close> returns. \<open>once\<close>: the fired set
  holds exactly the ids of the tasks reminded of so far, each once. \<open>extends st st'\<close>:
  \<open>st'\<close> continues \<open>st\<close>, and no task reminded of in between had its id in the fired set
  of \<open>st\<close>.
\<close>

definition returns :: "host \<Rightarrow> bool" where
  "returns h \<longleftrightarrow> (case h of Undeclared \<Rightarrow> False | Declared p constructs \<Rightarrow> p \<noteq> Granted \<or> constructs)"

definition granted :: "host \<Rightarrow> bool" where
  "granted h \<longleftrightarrow> (case h of Undeclared \<Rightarrow> False | Declared p constructs \<Rightarrow> p = Granted)"

definition once :: "reminder \<Rightarrow> bool" where
  "once st \<longleftrightarrow> notified st = task_id ` set (toasts st) \<and> distinct (map task_id (toasts st))"

definition extends :: "reminder \<Rightarrow> reminder \<Rightarrow> bool" where
  "extends st st' \<longleftrightarrow>
     notified st \<subseteq> notified st'
     \<and> (\<exists>new. toasts st' = toasts st @ new \<and> (\<forall>t\<in>set new. task_id t \<notin> notified st))"

definition parseable_sent :: "reminder \<Rightarrow> bool" where
  \<comment> \<open>every task reminded of so far has a due date that parses\<close>
  "parseable_sent st \<longleftrightarrow>
     (\<forall>t\<in>set (toasts st) \<union> set (browser st). parseUserDate (userDate t) \<noteq> None)"

text \<open>A conversion of calendar fields to milliseconds, for the examples.\<close>

definition sample_tv :: timevalue where
  "sample_tv y m d h mi = ((((y * 12 + m) * 31 + d) * 24 + h) * 60 + mi) * 60000"

text \<open>Two versions of one open task (the second with its date edited), and a completed task.\<close>

definition milk :: task where
  "milk = \<lparr>task_id = 7, task_text = js ''Buy milk'',
            userDate = Some (js ''25/12/2025 6:30 PM''), completed = False\<rparr>"

definition milk_edited :: task where
  "milk_edited = milk\<lparr>userDate := Some (js ''26/12/2025 6:30 PM'')\<rparr>"

definition done_task :: task where
  "done_task = \<lparr>task_id = 8, task_text = js ''Pay rent'',
                 userDate = Some (js ''25/12/2025 6:30 PM''), completed = True\<rparr>"

text \<open>A second open task, due at the same minute as the first.\<close>

definition call_task :: task where
  "call_task = \<lparr>task_id = 11, task_text = js ''Call mom'',
                 userDate = Some (js ''25/12/2025 6:30 PM''), completed = False\<rparr>"

section \<open>Evaluation\<close>

lemma reps_numeral:
  "reps f lo (numeral k) st =
     concat (map (reps f (lo - 1) (pred_numeral k)) (f st)) @ (if lo = 0 then [st] else [])"
  "reps f lo 1 st = concat (map (reps f (lo - 1) 0) (f st)) @ (if lo = 0 then [st] else [])"
  by (simp_all add: numeral_eq_Suc)

lemmas ev = js_def is_digit_def is_sep_def is_space_def is_colon_def is_word_def ci_def
  boundary_def last_opt_def reps_numeral match_def scan.simps dateTimeRegex_def timeRegex_def
  dateMatchRegex_def timeMatchRegex_def meridiem_def extractDateTime_def extractTimeOnly_def
  removeDateTime_def trim_def parseUserDate_def parseInt_def digits_val_def grp_def
  newDate_def toUpperCase_def upper_def

lemma parse_milk:
  "parseUserDate (Some (js ''25/12/2025 6:30 PM'')) = Some (Date 2025 11 25 18 30)"
  by (simp add: ev)

lemma parse_milk_edited:
  "parseUserDate (Some (js ''26/12/2025 6:30 PM'')) = Some (Date 2025 11 26 18 30)"
  by (simp add: ev)

lemma milk_extract:
  "extractDateTime (js ''Buy milk 25/12/2025 6:30 PM'') = Some (js ''25/12/2025 6:30 PM'')"
  by (simp add: ev)

lemma milk_remove: "removeDateTime (js ''Buy milk 25/12/2025 6:30 PM'') = js ''Buy milk''"
  by (simp add: ev)

lemma milk_time: "extractTimeOnly (js ''Buy milk 25/12/2025 6:30 PM'') = Some (js ''6:30 PM'')"
  by (simp add: ev)

lemma call_mom_time: "extractTimeOnly (js ''Call mom 9:00 AM'') = Some (js ''9:00 AM'')"
  by (simp add: ev)

lemma call_mom_date: "extractDateTime (js ''Call mom 9:00 AM'') = None"
  by (simp add: ev)

lemma call_mom_text: "removeDateTime (js ''Call mom 9:00 AM'') = js ''Call mom 9:00 AM''"
  by (simp add: ev)

lemma walk_dog:
  "extractDateTime (js ''Walk dog'') = None" "extractTimeOnly (js ''Walk dog'') = None"
  "removeDateTime (js ''Walk dog'') = js ''Walk dog''"
  by (simp_all add: ev)

lemma parse_tomorrow: "parseUserDate (Some (js ''tomorrow'')) = None"
  by (simp add: ev)

lemma tomorrow_nonempty: "js ''tomorrow'' \<noteq> []"
  by (simp add: js_def)

lemma today_example:
  "getTodayDate \<lparr>getDate = 2, getMonth = 10, getFullYear = 2026\<rparr> = js ''02-11-2026''"
  by (simp add: getTodayDate_def padStart2_def digits_of.simps js_def Let_def)

lemma not_blank:
  "trim (js ''Buy milk 25/12/2025 6:30 PM'') \<noteq> []" "trim (js ''Call mom 9:00 AM'') \<noteq> []"
  "trim (js ''Walk dog'') \<noteq> []"
  by (simp_all add: trim_def js_def is_space_def)

section \<open>The matcher finds exactly the strings of the pattern\<close>

lemma lastopt_simps [simp]:
  "lastopt pv [] = pv"
  "lastopt pv (w @ [c]) = Some c"
  "lastopt pv (c # w) = lastopt (Some c) w"
  "lastopt (lastopt pv u) v = lastopt pv (u @ v)"
  by (auto simp: lastopt_def)

lemma many1_set:
  "(pv', rs') \<in> set (many1 p rs) \<longleftrightarrow>
     (\<exists>w. w \<noteq> [] \<and> (\<forall>c\<in>set w. p c) \<and> rs = w @ rs' \<and> pv' = Some (last w))"
proof (induction rs)
  case Nil
  then show ?case by simp
next
  case (Cons c cs)
  show ?case
  proof
    assume "(pv', rs') \<in> set (many1 p (c # cs))"
    then have pc: "p c" and d: "(pv', rs') \<in> set (many1 p cs) \<or> (pv' = Some c \<and> rs' = cs)"
      by (auto split: if_splits)
    from d show "\<exists>w. w \<noteq> [] \<and> (\<forall>c\<in>set w. p c) \<and> c # cs = w @ rs' \<and> pv' = Some (last w)"
    proof
      assume "(pv', rs') \<in> set (many1 p cs)"
      with Cons.IH obtain w where "w \<noteq> []" "\<forall>c\<in>set w. p c" "cs = w @ rs'" "pv' = Some (last w)"
        by blast
      with pc show ?thesis by (intro exI[of _ "c # w"]) simp
    next
      assume "pv' = Some c \<and> rs' = cs"
      with pc show ?thesis by (intro exI[of _ "[c]"]) simp
    qed
  next
    assume "\<exists>w. w \<noteq> [] \<and> (\<forall>c\<in>set w. p c) \<and> c # cs = w @ rs' \<and> pv' = Some (last w)"
    then obtain w where w: "w \<noteq> []" "\<forall>c\<in>set w. p c" "c # cs = w @ rs'" "pv' = Some (last w)"
      by blast
    then obtain w' where w': "w = c # w'" by (cases w) auto
    show "(pv', rs') \<in> set (many1 p (c # cs))"
    proof (cases "w' = []")
      case True
      with w w' show ?thesis by simp
    next
      case False
      with w w' have "(pv', rs') \<in> set (many1 p cs)"
        using Cons.IH by auto
      with w w' show ?thesis by simp
    qed
  qed
qed

lemma reps_sound:
  assumes f: "\<And>pv rs cp pv' rs' cp'. (pv', rs', cp') \<in> set (f (pv, rs, cp)) \<Longrightarrow>
                \<exists>w. w \<in> L \<and> rs = w @ rs' \<and> pv' = lastopt pv w"
  shows "(pv', rs', cp') \<in> set (reps f lo hi (pv, rs, cp)) \<Longrightarrow>
           \<exists>ws. lo \<le> length ws \<and> length ws \<le> hi \<and> set ws \<subseteq> L
                \<and> rs = concat ws @ rs' \<and> pv' = lastopt pv (concat ws)"
proof (induction hi arbitrary: lo pv rs cp)
  case 0
  then show ?case by (auto split: if_splits intro: exI[of _ "[]"])
next
  case (Suc n)
  from Suc.prems consider
      (others) pv1 rs1 cp1 where "(pv1, rs1, cp1) \<in> set (f (pv, rs, cp))"
        "(pv', rs', cp') \<in> set (reps f (lo - 1) n (pv1, rs1, cp1))"
    | (stop) "lo = 0" "(pv', rs', cp') = (pv, rs, cp)"
    by (auto split: if_splits)
  then show ?case
  proof cases
    case others
    from f[OF others(1)] obtain w where w: "w \<in> L" "rs = w @ rs1" "pv1 = lastopt pv w" by blast
    from Suc.IH[OF others(2)] obtain ws where ws: "lo - 1 \<le> length ws" "length ws \<le> n"
      "set ws \<subseteq> L" "rs1 = concat ws @ rs'" "pv' = lastopt pv1 (concat ws)" by blast
    from w ws show ?thesis
      by (intro exI[of _ "w # ws"]) auto
  next
    case stop
    then show ?thesis by (intro exI[of _ "[]"]) simp
  qed
qed

lemma ms_sound:
  "(pv', rs', cp') \<in> set (ms r (pv, rs, cp)) \<Longrightarrow>
     \<exists>w. w \<in> lang r \<and> rs = w @ rs' \<and> pv' = lastopt pv w"
proof (induction r arbitrary: pv rs cp pv' rs' cp')
  case (Cls p)
  then show ?case by (auto split: list.splits if_splits)
next
  case (Seq a b)
  from Seq.prems obtain pv1 rs1 cp1 where
    1: "(pv1, rs1, cp1) \<in> set (ms a (pv, rs, cp))" and 2: "(pv', rs', cp') \<in> set (ms b (pv1, rs1, cp1))"
    by auto
  from Seq.IH(1)[OF 1] obtain u where u: "u \<in> lang a" "rs = u @ rs1" "pv1 = lastopt pv u" by blast
  from Seq.IH(2)[OF 2] obtain v where v: "v \<in> lang b" "rs1 = v @ rs'" "pv' = lastopt pv1 v" by blast
  from u v show ?case by (intro exI[of _ "u @ v"]) auto
next
  case (Alt a b)
  then show ?case by auto blast+
next
  case (Rep lo hi r)
  from Rep.prems have "(pv', rs', cp') \<in> set (reps (ms r) lo hi (pv, rs, cp))" by simp
  moreover have "\<And>pv rs cp pv' rs' cp'. (pv', rs', cp') \<in> set (ms r (pv, rs, cp)) \<Longrightarrow>
                \<exists>w. w \<in> lang r \<and> rs = w @ rs' \<and> pv' = lastopt pv w"
    by (rule Rep.IH)
  ultimately have "\<exists>ws. lo \<le> length ws \<and> length ws \<le> hi \<and> set ws \<subseteq> lang r
                \<and> rs = concat ws @ rs' \<and> pv' = lastopt pv (concat ws)"
    by (rule reps_sound[where f = "ms r" and L = "lang r", rotated])
  then show ?case by auto
next
  case (Plus p)
  then have "(pv', rs') \<in> set (many1 p rs)" by auto
  then show ?case by (auto simp: many1_set lastopt_def)
next
  case (Group n r)
  from Group.prems obtain cp1 where "(pv', rs', cp1) \<in> set (ms r (pv, rs, cp))" by auto
  from Group.IH[OF this] show ?case by simp
next
  case WordB
  then show ?case by (auto split: if_splits)
qed

lemma reps_complete:
  assumes f: "\<And>w pv rs' cp. w \<in> L \<Longrightarrow> \<exists>cp'. (lastopt pv w, rs', cp') \<in> set (f (pv, w @ rs', cp))"
  shows "lo \<le> length ws \<Longrightarrow> length ws \<le> hi \<Longrightarrow> set ws \<subseteq> L \<Longrightarrow>
           \<exists>cp'. (lastopt pv (concat ws), rs', cp') \<in> set (reps f lo hi (pv, concat ws @ rs', cp))"
proof (induction hi arbitrary: lo ws pv cp)
  case 0
  then show ?case by simp
next
  case (Suc n)
  show ?case
  proof (cases ws)
    case Nil
    with Suc.prems show ?thesis by auto
  next
    case (Cons w ws')
    with Suc.prems have "w \<in> L" by simp
    from f[OF this, of pv "concat ws' @ rs'" cp] obtain cp1 where
      1: "(lastopt pv w, concat ws' @ rs', cp1) \<in> set (f (pv, w @ concat ws' @ rs', cp))" by blast
    from Cons Suc.prems have "lo - 1 \<le> length ws'" "length ws' \<le> n" "set ws' \<subseteq> L" by auto
    from Suc.IH[OF this, of "lastopt pv w" cp1] obtain cp' where
      2: "(lastopt pv (w @ concat ws'), rs', cp') \<in> set (reps f (lo - 1) n (lastopt pv w, concat ws' @ rs', cp1))"
      by auto
    from 1 2 Cons show ?thesis by (auto intro!: exI[of _ cp'])
  qed
qed

lemma ms_complete:
  "wbfree r \<Longrightarrow> w \<in> lang r \<Longrightarrow> \<exists>cp'. (lastopt pv w, rs', cp') \<in> set (ms r (pv, w @ rs', cp))"
proof (induction r arbitrary: w pv rs' cp)
  case (Cls p)
  then show ?case by auto
next
  case (Seq a b)
  from Seq.prems obtain u v where uv: "w = u @ v" "u \<in> lang a" "v \<in> lang b" by auto
  from Seq.prems Seq.IH(1)[OF _ uv(2), of pv "v @ rs'" cp] obtain cp1 where
    1: "(lastopt pv u, v @ rs', cp1) \<in> set (ms a (pv, u @ v @ rs', cp))" by auto
  from Seq.prems Seq.IH(2)[OF _ uv(3), of "lastopt pv u" rs' cp1] obtain cp2 where
    2: "(lastopt pv (u @ v), rs', cp2) \<in> set (ms b (lastopt pv u, v @ rs', cp1))" by auto
  from 1 2 uv show ?case by (auto intro!: exI[of _ cp2])
next
  case (Alt a b)
  then show ?case by auto blast+
next
  case (Rep lo hi r)
  from Rep.prems obtain ws where ws: "w = concat ws" "lo \<le> length ws" "length ws \<le> hi" "set ws \<subseteq> lang r"
    by auto
  have "\<And>w pv rs' cp. w \<in> lang r \<Longrightarrow> \<exists>cp'. (lastopt pv w, rs', cp') \<in> set (ms r (pv, w @ rs', cp))"
    using Rep.IH Rep.prems(1) by simp
  from reps_complete[where f = "ms r" and L = "lang r", OF this ws(2,3,4), of pv rs' cp]
  show ?case using ws by simp
next
  case (Plus p)
  then have "(lastopt pv w, rs') \<in> set (many1 p (w @ rs'))"
    by (auto simp: many1_set lastopt_def)
  then show ?case by force
next
  case (Group n r)
  then obtain cp1 where "(lastopt pv w, rs', cp1) \<in> set (ms r (pv, w @ rs', cp))" by fastforce
  then show ?case by force
next
  case WordB
  then show ?case by simp
qed

lemma append_eq_longer:
  "u @ x = p @ y \<Longrightarrow> length p < length u \<Longrightarrow> \<exists>u2. u = p @ u2 \<and> u2 \<noteq> [] \<and> y = u2 @ x"
proof (induction p arbitrary: u)
  case Nil
  then show ?case by auto
next
  case (Cons a p)
  then obtain b u' where "u = b # u'" by (cases u) auto
  with Cons show ?case by auto
qed

lemma last_opt_snoc [simp]: "last_opt (pre @ [c]) = Some c"
  by (simp add: last_opt_def)

lemma scan_Nil:
  "ms r (last_opt pre, rest, []) = [] \<Longrightarrow>
     scan r pre rest = (case rest of [] \<Rightarrow> None | c # cs \<Rightarrow> scan r (pre @ [c]) cs)"
  by (subst scan.simps) simp

lemma scan_Cons:
  "ms r (last_opt pre, rest, []) = (pv, rs', cp) # others \<Longrightarrow>
     scan r pre rest = Some \<lparr>before = pre, whole = take (length rest - length rs') rest,
                             after = rs', groups = cp\<rparr>"
  by (subst scan.simps) simp

lemma scan_Some:
  "scan r pre rest = Some m \<Longrightarrow>
     \<exists>u pv others. rest = u @ whole m @ after m \<and> before m = pre @ u
       \<and> ms r (last_opt (pre @ u), whole m @ after m, []) = (pv, after m, groups m) # others
       \<and> (\<forall>u1 u2. u = u1 @ u2 \<and> u2 \<noteq> [] \<longrightarrow>
              ms r (last_opt (pre @ u1), u2 @ whole m @ after m, []) = [])"
proof (induction rest arbitrary: pre)
  case Nil
  show ?case
  proof (cases "ms r (last_opt pre, [], [])")
    case Nil
    from scan_Nil[OF this] Nil.prems show ?thesis by simp
  next
    case (Cons st others)
    obtain pv rs' cp where st: "st = (pv, rs', cp)" by (cases st)
    from Cons st have "(pv, rs', cp) \<in> set (ms r (last_opt pre, [], []))" by simp
    from ms_sound[OF this] have "rs' = []" by auto
    with scan_Cons[OF Cons[unfolded st]] Nil.prems Cons st
    show ?thesis by (intro exI[of _ "[]"]) auto
  qed
next
  case (Cons c cs)
  show ?case
  proof (cases "ms r (last_opt pre, c # cs, [])")
    case Nil
    from scan_Nil[OF this] Cons.prems have "scan r (pre @ [c]) cs = Some m" by simp
    from Cons.IH[OF this] obtain u pv others where u: "cs = u @ whole m @ after m"
      "before m = (pre @ [c]) @ u"
      "ms r (last_opt ((pre @ [c]) @ u), whole m @ after m, []) = (pv, after m, groups m) # others"
      "\<forall>u1 u2. u = u1 @ u2 \<and> u2 \<noteq> [] \<longrightarrow>
              ms r (last_opt ((pre @ [c]) @ u1), u2 @ whole m @ after m, []) = []"
      by blast
    have "\<forall>u1 u2. c # u = u1 @ u2 \<and> u2 \<noteq> [] \<longrightarrow>
              ms r (last_opt (pre @ u1), u2 @ whole m @ after m, []) = []"
    proof (intro allI impI)
      fix u1 u2 assume a: "c # u = u1 @ u2 \<and> u2 \<noteq> []"
      show "ms r (last_opt (pre @ u1), u2 @ whole m @ after m, []) = []"
      proof (cases u1)
        case Nil
        with a have "u2 = c # u" by simp
        with Nil u(1) \<open>ms r (last_opt pre, c # cs, []) = []\<close> show ?thesis by simp
      next
        case (Cons c' u1')
        with a have "c' = c" "u = u1' @ u2" by auto
        with u(4) a Cons show ?thesis by simp
      qed
    qed
    with u show ?thesis by (intro exI[of _ "c # u"]) simp
  next
    case (Cons st others)
    obtain pv rs' cp where st: "st = (pv, rs', cp)" by (cases st)
    from scan_Cons[OF Cons[unfolded st]] Cons.prems have
      m: "m = \<lparr>before = pre, whole = take (length (c # cs) - length rs') (c # cs), after = rs', groups = cp\<rparr>"
      by simp
    from Cons st have "(pv, rs', cp) \<in> set (ms r (last_opt pre, c # cs, []))" by simp
    from ms_sound[OF this] obtain w where "c # cs = w @ rs'" by blast
    with Cons st m show ?thesis by (intro exI[of _ "[]"]) simp
  qed
qed

lemma scan_None:
  "scan r pre rest = None \<Longrightarrow> rest = u @ v \<Longrightarrow> ms r (last_opt (pre @ u), v, []) = []"
proof (induction rest arbitrary: pre u)
  case Nil
  show ?case
  proof (cases "ms r (last_opt pre, [], [])")
    case Nil
    with Nil.prems show ?thesis by simp
  next
    case (Cons st others)
    obtain pv rs' cp where st: "st = (pv, rs', cp)" by (cases st)
    from scan_Cons[OF Cons[unfolded st]] Nil.prems show ?thesis by simp
  qed
next
  case (Cons c cs)
  have 1: "ms r (last_opt pre, c # cs, []) = []"
  proof (cases "ms r (last_opt pre, c # cs, [])")
    case Nil
    then show ?thesis .
  next
    case (Cons st others)
    obtain pv rs' cp where st: "st = (pv, rs', cp)" by (cases st)
    from scan_Cons[OF Cons[unfolded st]] Cons.prems show ?thesis by simp
  qed
  from scan_Nil[OF 1] Cons.prems(1) have 2: "scan r (pre @ [c]) cs = None" by simp
  show ?case
  proof (cases u)
    case Nil
    with 1 Cons.prems(2) show ?thesis by simp
  next
    case (Cons c' u')
    with Cons.prems(2) have "c' = c" "cs = u' @ v" by auto
    with Cons.IH[OF 2, of u'] Cons show ?thesis by simp
  qed
qed

lemma match_Some:
  assumes "match r s = Some m"
  shows "s = before m @ whole m @ after m" and "whole m \<in> lang r"
    and "\<exists>pv others. ms r (last_opt (before m), whole m @ after m, []) = (pv, after m, groups m) # others"
    and "wbfree r \<Longrightarrow> s = pre' @ w' @ post' \<Longrightarrow> w' \<in> lang r \<Longrightarrow> length (before m) \<le> length pre'"
proof -
  from assms have "scan r [] s = Some m" by (simp add: match_def)
  from scan_Some[OF this] obtain u pv others where u: "s = u @ whole m @ after m" "before m = u"
    and ms: "ms r (last_opt u, whole m @ after m, []) = (pv, after m, groups m) # others"
    and no: "\<forall>u1 u2. u = u1 @ u2 \<and> u2 \<noteq> [] \<longrightarrow>
              ms r (last_opt u1, u2 @ whole m @ after m, []) = []"
    by auto
  from u show "s = before m @ whole m @ after m" by simp
  from ms u show "\<exists>pv others. ms r (last_opt (before m), whole m @ after m, []) = (pv, after m, groups m) # others"
    by auto
  from ms have "(pv, after m, groups m) \<in> set (ms r (last_opt u, whole m @ after m, []))" by simp
  from ms_sound[OF this] show "whole m \<in> lang r" by auto
  show "length (before m) \<le> length pre'" if wb: "wbfree r" and s: "s = pre' @ w' @ post'" and w': "w' \<in> lang r"
  proof (rule ccontr)
    assume "\<not> length (before m) \<le> length pre'"
    with u have lt: "length pre' < length u" by simp
    from u(1) s have "u @ whole m @ after m = pre' @ w' @ post'" by simp
    from append_eq_longer[OF this lt]
    obtain u2 where u2: "u = pre' @ u2" "u2 \<noteq> []" "w' @ post' = u2 @ whole m @ after m"
      by blast
    with no have "ms r (last_opt pre', w' @ post', []) = []" by auto
    moreover from ms_complete[OF wb w', of "last_opt pre'" post' "[]"]
    have "ms r (last_opt pre', w' @ post', []) \<noteq> []" by auto
    ultimately show False by simp
  qed
qed

lemma match_None:
  assumes "wbfree r"
  shows "match r s = None \<longleftrightarrow> \<not> (\<exists>pre w post. s = pre @ w @ post \<and> w \<in> lang r)"
proof
  assume n: "match r s = None"
  show "\<not> (\<exists>pre w post. s = pre @ w @ post \<and> w \<in> lang r)"
  proof
    assume "\<exists>pre w post. s = pre @ w @ post \<and> w \<in> lang r"
    then obtain pre w post where s: "s = pre @ w @ post" and w: "w \<in> lang r" by blast
    from n s have "ms r (last_opt ([] @ pre), w @ post, []) = []"
      by (intro scan_None[of r "[]" s pre]) (simp_all add: match_def)
    moreover from ms_complete[OF assms w, of "last_opt pre" post "[]"]
    have "ms r (last_opt pre, w @ post, []) \<noteq> []" by auto
    ultimately show False by simp
  qed
next
  assume no: "\<not> (\<exists>pre w post. s = pre @ w @ post \<and> w \<in> lang r)"
  show "match r s = None"
  proof (cases "match r s")
    case None
    then show ?thesis .
  next
    case (Some m)
    from match_Some(1,2)[OF Some] no show ?thesis by blast
  qed
qed

lemma concat_singletons: "set ws \<subseteq> {[c] | c. p c} \<Longrightarrow> length (concat ws) = length ws \<and> (\<forall>c\<in>set (concat ws). p c)"
  by (induction ws) auto

lemma lang_Rep_Cls:
  "lang (Rep lo hi (Cls p)) = {w. lo \<le> length w \<and> length w \<le> hi \<and> (\<forall>c\<in>set w. p c)}"
proof (rule set_eqI, rule iffI)
  fix w assume "w \<in> lang (Rep lo hi (Cls p))"
  then obtain ws where "w = concat ws" "lo \<le> length ws" "length ws \<le> hi" "set ws \<subseteq> {[c] | c. p c}"
    by auto
  with concat_singletons[OF this(4)]
  show "w \<in> {w. lo \<le> length w \<and> length w \<le> hi \<and> (\<forall>c\<in>set w. p c)}" by simp
next
  fix w assume w: "w \<in> {w. lo \<le> length w \<and> length w \<le> hi \<and> (\<forall>c\<in>set w. p c)}"
  have "w = concat (map (\<lambda>c. [c]) w)" by (induction w) auto
  moreover from w have "set (map (\<lambda>c. [c]) w) \<subseteq> lang (Cls p)" by auto
  ultimately show "w \<in> lang (Rep lo hi (Cls p))"
    using w by (auto intro!: exI[of _ "map (\<lambda>c. [c]) w"])
qed

lemma lang_D: "w \<in> lang (Rep lo hi D) \<longleftrightarrow> digit_run lo hi w"
  by (simp only: lang_Rep_Cls digit_run_def mem_Collect_eq)

lemma lang_Opt: "w \<in> lang (Opt r) \<longleftrightarrow> w = [] \<or> w \<in> lang r"
proof
  assume "w \<in> lang (Opt r)"
  then obtain ws where ws: "w = concat ws" "length ws \<le> 1" "set ws \<subseteq> lang r" by auto
  show "w = [] \<or> w \<in> lang r"
  proof (cases ws)
    case Nil
    with ws show ?thesis by simp
  next
    case (Cons x xs)
    with ws have "xs = []" by simp
    with Cons ws show ?thesis by simp
  qed
next
  assume "w = [] \<or> w \<in> lang r"
  then have "\<exists>ws. w = concat ws \<and> 0 \<le> length ws \<and> length ws \<le> 1 \<and> set ws \<subseteq> lang r"
  proof
    assume "w = []"
    then show ?thesis by (intro exI[of _ "[]"]) simp
  next
    assume "w \<in> lang r"
    then show ?thesis by (intro exI[of _ "[w]"]) simp
  qed
  then show "w \<in> lang (Opt r)" by simp
qed

lemma lang_Seq_Cls: "w \<in> lang (Seq (Cls p) b) \<longleftrightarrow> (\<exists>c v. w = c # v \<and> p c \<and> v \<in> lang b)"
proof
  assume "w \<in> lang (Seq (Cls p) b)"
  then obtain u v where uv: "w = u @ v" "u \<in> lang (Cls p)" "v \<in> lang b" by auto
  then obtain c where "u = [c]" "p c" by auto
  with uv show "\<exists>c v. w = c # v \<and> p c \<and> v \<in> lang b" by simp
next
  assume "\<exists>c v. w = c # v \<and> p c \<and> v \<in> lang b"
  then obtain c v where "w = [c] @ v" "p c" "v \<in> lang b" by auto
  then have "\<exists>u v. w = u @ v \<and> u \<in> lang (Cls p) \<and> v \<in> lang b"
    by (intro exI[of _ "[c]"] exI[of _ v]) simp
  then show "w \<in> lang (Seq (Cls p) b)" by simp
qed

lemma lang_Seq_Rep:
  "w \<in> lang (Seq (Rep lo hi r) b) \<longleftrightarrow> (\<exists>u v. w = u @ v \<and> u \<in> lang (Rep lo hi r) \<and> v \<in> lang b)"
  by simp

lemma lang_Seq_Group:
  "w \<in> lang (Seq (Group n r) b) \<longleftrightarrow> (\<exists>u v. w = u @ v \<and> u \<in> lang r \<and> v \<in> lang b)"
  by simp

lemma lang_Seq_Plus:
  "w \<in> lang (Seq (Plus p) b) \<longleftrightarrow> (\<exists>u v. w = u @ v \<and> u \<noteq> [] \<and> (\<forall>c\<in>set u. p c) \<and> v \<in> lang b)"
  by simp

lemma lang_Cls: "w \<in> lang (Cls p) \<longleftrightarrow> (\<exists>c. w = [c] \<and> p c)"
  by auto

lemma lang_Group: "w \<in> lang (Group n r) \<longleftrightarrow> w \<in> lang r"
  by simp

lemma lang_meridiem: "w \<in> lang meridiem \<longleftrightarrow> meridiem_marker w"
proof -
  have "w \<in> lang meridiem \<longleftrightarrow>
          (\<exists>c v. w = c # v \<and> ci 65 c \<and> (\<exists>c. v = [c] \<and> ci 77 c))
          \<or> (\<exists>c v. w = c # v \<and> ci 80 c \<and> (\<exists>c. v = [c] \<and> ci 77 c))"
    unfolding meridiem_def lang.simps(3) Un_iff lang_Seq_Cls lang_Cls ..
  also have "\<dots> \<longleftrightarrow> meridiem_marker w"
    unfolding meridiem_marker_def by auto
  finally show ?thesis .
qed

lemma lang_date_core:
  "w \<in> lang (Seq (Rep 1 2 D) (Seq (Cls is_sep) (Seq (Rep 1 2 D) (Seq (Cls is_sep) (Rep 2 4 D)))))
     \<longleftrightarrow> date_segment w"
proof
  assume "w \<in> lang (Seq (Rep 1 2 D) (Seq (Cls is_sep) (Seq (Rep 1 2 D) (Seq (Cls is_sep) (Rep 2 4 D)))))"
  then obtain d a m b y where "w = d @ a # m @ b # y" "digit_run 1 2 d" "is_sep a"
    "digit_run 1 2 m" "is_sep b" "digit_run 2 4 y"
    unfolding lang_Seq_Cls lang_Seq_Rep lang_D by (elim exE conjE) simp
  then show "date_segment w"
    unfolding date_segment_def by (intro exI conjI)
next
  assume "date_segment w"
  then obtain d a m b y where "w = d @ a # m @ b # y" "digit_run 1 2 d" "is_sep a"
    "digit_run 1 2 m" "is_sep b" "digit_run 2 4 y"
    unfolding date_segment_def by (elim exE conjE)
  then show "w \<in> lang (Seq (Rep 1 2 D) (Seq (Cls is_sep) (Seq (Rep 1 2 D) (Seq (Cls is_sep) (Rep 2 4 D)))))"
    unfolding lang_Seq_Cls lang_Seq_Rep lang_D by (intro exI conjI) (assumption | rule refl)+
qed

lemma lang_dateMatchRegex: "w \<in> lang dateMatchRegex \<longleftrightarrow> date_segment w"
proof -
  have "lang dateMatchRegex
      = lang (Seq (Rep 1 2 D) (Seq (Cls is_sep) (Seq (Rep 1 2 D) (Seq (Cls is_sep) (Rep 2 4 D)))))"
    by (simp add: dateMatchRegex_def)
  then show ?thesis by (simp only: lang_date_core)
qed

lemma lang_time_part:
  "w \<in> lang (Seq (Plus is_space) (Seq (Rep 1 2 D) (Seq (Cls is_colon)
            (Seq (Rep 2 2 D) (Seq (Opt (Cls is_space)) (Opt (Group 3 meridiem)))))))
     \<longleftrightarrow> accepted_time w"
proof
  assume "w \<in> lang (Seq (Plus is_space) (Seq (Rep 1 2 D) (Seq (Cls is_colon)
            (Seq (Rep 2 2 D) (Seq (Opt (Cls is_space)) (Opt (Group 3 meridiem)))))))"
  then obtain ws h c mi sp mer where "w = ws @ h @ c # mi @ sp @ mer"
    "ws \<noteq> []" "\<forall>x\<in>set ws. is_space x" "digit_run 1 2 h" "is_colon c" "digit_run 2 2 mi"
    "sp = [] \<or> (\<exists>x. sp = [x] \<and> is_space x)" "mer = [] \<or> meridiem_marker mer"
    unfolding lang_Seq_Plus lang_Seq_Rep lang_Seq_Cls lang_D lang_Opt lang_Cls lang_Group lang_meridiem
    by (elim exE conjE) simp
  then show "accepted_time w"
    unfolding accepted_time_def by (intro exI conjI)
next
  assume "accepted_time w"
  then obtain ws h c mi sp mer where "w = ws @ h @ c # mi @ sp @ mer"
    "ws \<noteq> []" "\<forall>x\<in>set ws. is_space x" "digit_run 1 2 h" "is_colon c" "digit_run 2 2 mi"
    "sp = [] \<or> (\<exists>x. sp = [x] \<and> is_space x)" "mer = [] \<or> meridiem_marker mer"
    unfolding accepted_time_def by (elim exE conjE)
  then show "w \<in> lang (Seq (Plus is_space) (Seq (Rep 1 2 D) (Seq (Cls is_colon)
            (Seq (Rep 2 2 D) (Seq (Opt (Cls is_space)) (Opt (Group 3 meridiem)))))))"
    unfolding lang_Seq_Plus lang_Seq_Rep lang_Seq_Cls lang_D lang_Opt lang_Cls lang_Group lang_meridiem
    by (intro exI conjI) (assumption | rule refl)+
qed

lemma lang_dateTimeRegex: "w \<in> lang dateTimeRegex \<longleftrightarrow> accepted_date_time w"
proof -
  have "w \<in> lang dateTimeRegex \<longleftrightarrow>
     (\<exists>d t. w = d @ t \<and> date_segment d \<and> (t = [] \<or> accepted_time t))"
    unfolding dateTimeRegex_def
    by (subst lang_Seq_Group) (simp only: lang_Group lang_Opt lang_date_core lang_time_part)
  also have "\<dots> \<longleftrightarrow> accepted_date_time w"
    unfolding accepted_date_time_def by auto
  finally show ?thesis .
qed

lemma date_segment_nonempty: "date_segment w \<Longrightarrow> w \<noteq> []"
  by (auto simp: date_segment_def)

lemma accepted_nonempty: "accepted_date_time w \<Longrightarrow> w \<noteq> []"
  by (auto simp: accepted_date_time_def dest: date_segment_nonempty)

lemma wbfree_patterns [simp]:
  "wbfree dateTimeRegex" "wbfree dateMatchRegex" "wbfree timeMatchRegex"
  by (simp_all add: dateTimeRegex_def dateMatchRegex_def timeMatchRegex_def meridiem_def)

lemma reps_caps:
  assumes f: "\<And>pv rs cp pv' rs' cp'. (pv', rs', cp') \<in> set (f (pv, rs, cp)) \<Longrightarrow> cp' = cp"
  shows "(pv', rs', cp') \<in> set (reps f lo hi (pv, rs, cp)) \<Longrightarrow> cp' = cp"
proof (induction hi arbitrary: lo pv rs cp)
  case 0
  then show ?case by (auto split: if_splits)
next
  case (Suc n)
  from Suc.prems consider
      (more) pv1 rs1 cp1 where "(pv1, rs1, cp1) \<in> set (f (pv, rs, cp))"
        "(pv', rs', cp') \<in> set (reps f (lo - 1) n (pv1, rs1, cp1))"
    | (stop) "(pv', rs', cp') = (pv, rs, cp)"
    by (auto split: if_splits)
  then show ?case
  proof cases
    case more
    from f[OF more(1)] Suc.IH[OF more(2)] show ?thesis by simp
  next
    case stop
    then show ?thesis by simp
  qed
qed

lemma ms_nogroup:
  "nogroup r \<Longrightarrow> (pv', rs', cp') \<in> set (ms r (pv, rs, cp)) \<Longrightarrow> cp' = cp"
proof (induction r arbitrary: pv rs cp pv' rs' cp')
  case (Cls p)
  then show ?case by (auto split: list.splits if_splits)
next
  case (Seq a b)
  from Seq.prems obtain pv1 rs1 cp1 where
    1: "(pv1, rs1, cp1) \<in> set (ms a (pv, rs, cp))" and 2: "(pv', rs', cp') \<in> set (ms b (pv1, rs1, cp1))"
    by auto
  from Seq.IH(1)[OF _ 1] Seq.IH(2)[OF _ 2] Seq.prems(1) show ?case by simp
next
  case (Alt a b)
  then show ?case by auto
next
  case (Rep lo hi r)
  from Rep.prems have "(pv', rs', cp') \<in> set (reps (ms r) lo hi (pv, rs, cp))" by simp
  moreover have "\<And>pv rs cp pv' rs' cp'. (pv', rs', cp') \<in> set (ms r (pv, rs, cp)) \<Longrightarrow> cp' = cp"
    using Rep.IH Rep.prems(1) by simp
  ultimately show ?case by (rule reps_caps[where f = "ms r", rotated])
next
  case (Plus p)
  then show ?case by auto
next
  case (Group n r)
  then show ?case by simp
next
  case WordB
  then show ?case by (auto split: if_splits)
qed

lemma ms_Seq_elim:
  assumes "(pv'', rs'', cp'') \<in> set (ms (Seq a b) (pv, rs, cp))"
  obtains pv' rs' cp' where "(pv', rs', cp') \<in> set (ms a (pv, rs, cp))"
    "(pv'', rs'', cp'') \<in> set (ms b (pv', rs', cp'))"
  using assms by auto

lemma ms_Cls_elim:
  assumes "(pv', rs', cp') \<in> set (ms (Cls p) (pv, rs, cp))"
  obtains c where "rs = c # rs'" "p c" "pv' = Some c" "cp' = cp"
  using assms by (auto split: list.splits if_splits)

lemma ms_plain_elim:
  assumes "(pv', rs', cp') \<in> set (ms r (pv, rs, cp))" "nogroup r"
  obtains w where "w \<in> lang r" "rs = w @ rs'" "pv' = lastopt pv w" "cp' = cp"
  using ms_sound[OF assms(1)] ms_nogroup[OF assms(2,1)] by blast

lemma ms_Group_elim:
  assumes "(pv', rs', cp') \<in> set (ms (Group n r) (pv, rs, cp))" "nogroup r"
  obtains w where "w \<in> lang r" "rs = w @ rs'" "pv' = lastopt pv w" "cp' = (n, w) # cp"
proof -
  from assms(1) obtain cp1 where 1: "(pv', rs', cp1) \<in> set (ms r (pv, rs, cp))"
    and 2: "cp' = (n, take (length rs - length rs') rs) # cp1" by auto
  from ms_plain_elim[OF 1 assms(2)] obtain w where
    w: "w \<in> lang r" "rs = w @ rs'" "pv' = lastopt pv w" "cp1 = cp" by blast
  with 2 have "cp' = (n, w) # cp" by simp
  with w(1,2,3) show ?thesis by (rule that)
qed

lemma ms_Group_D_elim:
  assumes "(pv', rs', cp') \<in> set (ms (Group n (Rep lo hi D)) (pv, rs, cp))"
  obtains w where "digit_run lo hi w" "rs = w @ rs'" "pv' = lastopt pv w" "cp' = (n, w) # cp"
proof -
  have "nogroup (Rep lo hi D)" by simp
  from ms_Group_elim[OF assms this] obtain w where
    w: "w \<in> lang (Rep lo hi D)" "rs = w @ rs'" "pv' = lastopt pv w" "cp' = (n, w) # cp" by blast
  from w(1) have "digit_run lo hi w" by (simp only: lang_D)
  with w(2,3,4) show ?thesis by (intro that)
qed

lemma ms_Opt_elim:
  assumes "st' \<in> set (ms (Opt r) st)"
  obtains "st' = st" | "st' \<in> set (ms r st)"
  using assms by (auto simp: numeral_eq_Suc split: if_splits)

lemma nogroup_meridiem [simp]: "nogroup meridiem"
  by (simp add: meridiem_def)

lemma dateMatch_caps:
  assumes "(pv', rs', cp') \<in> set (ms dateMatchRegex (pv, rs, cp))"
  obtains d a mo b y where "rs = d @ a # mo @ b # y @ rs'"
    "digit_run 1 2 d" "is_sep a" "digit_run 1 2 mo" "is_sep b" "digit_run 2 4 y"
    "cp' = [(3, y), (2, mo), (1, d)] @ cp"
proof -
  from assms[unfolded dateMatchRegex_def] obtain pv1 rs1 cp1 where
    1: "(pv1, rs1, cp1) \<in> set (ms (Group 1 (Rep 1 2 D)) (pv, rs, cp))" and
    r1: "(pv', rs', cp') \<in> set (ms (Seq (Cls is_sep) (Seq (Group 2 (Rep 1 2 D))
       (Seq (Cls is_sep) (Group 3 (Rep 2 4 D))))) (pv1, rs1, cp1))"
    by (rule ms_Seq_elim)
  from r1 obtain pv2 rs2 cp2 where
    2: "(pv2, rs2, cp2) \<in> set (ms (Cls is_sep) (pv1, rs1, cp1))" and
    r2: "(pv', rs', cp') \<in> set (ms (Seq (Group 2 (Rep 1 2 D))
       (Seq (Cls is_sep) (Group 3 (Rep 2 4 D)))) (pv2, rs2, cp2))"
    by (rule ms_Seq_elim)
  from r2 obtain pv3 rs3 cp3 where
    3: "(pv3, rs3, cp3) \<in> set (ms (Group 2 (Rep 1 2 D)) (pv2, rs2, cp2))" and
    r3: "(pv', rs', cp') \<in> set (ms (Seq (Cls is_sep) (Group 3 (Rep 2 4 D))) (pv3, rs3, cp3))"
    by (rule ms_Seq_elim)
  from r3 obtain pv4 rs4 cp4 where
    4: "(pv4, rs4, cp4) \<in> set (ms (Cls is_sep) (pv3, rs3, cp3))" and
    5: "(pv', rs', cp') \<in> set (ms (Group 3 (Rep 2 4 D)) (pv4, rs4, cp4))"
    by (rule ms_Seq_elim)
  from 1 obtain d where d: "digit_run 1 2 d" "rs = d @ rs1" "cp1 = (1, d) # cp"
    by (elim ms_Group_D_elim)
  from 2 obtain a where a: "is_sep a" "rs1 = a # rs2" "cp2 = cp1"
    by (elim ms_Cls_elim)
  from 3 obtain mo where mo: "digit_run 1 2 mo" "rs2 = mo @ rs3" "cp3 = (2, mo) # cp2"
    by (elim ms_Group_D_elim)
  from 4 obtain b where b: "is_sep b" "rs3 = b # rs4" "cp4 = cp3"
    by (elim ms_Cls_elim)
  from 5 obtain y where y: "digit_run 2 4 y" "rs4 = y @ rs'" "cp' = (3, y) # cp4"
    by (elim ms_Group_D_elim)
  show ?thesis
    using d a mo b y by (intro that[of d a mo b y]) simp_all
qed

lemma timeMatch_caps:
  assumes "(pv', rs', cp') \<in> set (ms timeMatchRegex (pv, rs, cp))"
  obtains h c mi sp mer where "rs = h @ c # mi @ sp @ mer @ rs'"
    "digit_run 1 2 h" "is_colon c" "digit_run 2 2 mi"
    "sp = [] \<or> (\<exists>x. sp = [x] \<and> is_space x)"
    "(mer = [] \<and> cp' = [(2, mi), (1, h)] @ cp)
      \<or> (meridiem_marker mer \<and> cp' = [(3, mer), (2, mi), (1, h)] @ cp)"
proof -
  from assms[unfolded timeMatchRegex_def] obtain pv1 rs1 cp1 where
    1: "(pv1, rs1, cp1) \<in> set (ms (Group 1 (Rep 1 2 D)) (pv, rs, cp))" and
    r1: "(pv', rs', cp') \<in> set (ms (Seq (Cls is_colon) (Seq (Group 2 (Rep 2 2 D))
       (Seq (Opt (Cls is_space)) (Opt (Group 3 meridiem))))) (pv1, rs1, cp1))"
    by (rule ms_Seq_elim)
  from r1 obtain pv2 rs2 cp2 where
    2: "(pv2, rs2, cp2) \<in> set (ms (Cls is_colon) (pv1, rs1, cp1))" and
    r2: "(pv', rs', cp') \<in> set (ms (Seq (Group 2 (Rep 2 2 D))
       (Seq (Opt (Cls is_space)) (Opt (Group 3 meridiem)))) (pv2, rs2, cp2))"
    by (rule ms_Seq_elim)
  from r2 obtain pv3 rs3 cp3 where
    3: "(pv3, rs3, cp3) \<in> set (ms (Group 2 (Rep 2 2 D)) (pv2, rs2, cp2))" and
    r3: "(pv', rs', cp') \<in> set (ms (Seq (Opt (Cls is_space)) (Opt (Group 3 meridiem))) (pv3, rs3, cp3))"
    by (rule ms_Seq_elim)
  from r3 obtain pv4 rs4 cp4 where
    4: "(pv4, rs4, cp4) \<in> set (ms (Opt (Cls is_space)) (pv3, rs3, cp3))" and
    5: "(pv', rs', cp') \<in> set (ms (Opt (Group 3 meridiem)) (pv4, rs4, cp4))"
    by (rule ms_Seq_elim)
  from 1 obtain h where h: "digit_run 1 2 h" "rs = h @ rs1" "cp1 = (1, h) # cp"
    by (elim ms_Group_D_elim)
  from 2 obtain c where c: "is_colon c" "rs1 = c # rs2" "cp2 = cp1"
    by (elim ms_Cls_elim)
  from 3 obtain mi where mi: "digit_run 2 2 mi" "rs2 = mi @ rs3" "cp3 = (2, mi) # cp2"
    by (elim ms_Group_D_elim)
  from 4 obtain sp where sp: "sp = [] \<or> (\<exists>x. sp = [x] \<and> is_space x)" "rs3 = sp @ rs4" "cp4 = cp3"
  proof (cases rule: ms_Opt_elim)
    case 1
    then show ?thesis by (intro that[of "[]"]) simp_all
  next
    case 2
    then obtain x where "rs3 = x # rs4" "is_space x" "cp4 = cp3" by (elim ms_Cls_elim)
    then show ?thesis by (intro that[of "[x]"]) simp_all
  qed
  from 5 obtain mer where mer: "rs4 = mer @ rs'"
    "(mer = [] \<and> cp' = cp4) \<or> (meridiem_marker mer \<and> cp' = (3, mer) # cp4)"
  proof (cases rule: ms_Opt_elim)
    case 1
    then show ?thesis by (intro that[of "[]"]) simp_all
  next
    case 2
    then obtain w where "w \<in> lang meridiem" "rs4 = w @ rs'" "cp' = (3, w) # cp4"
      by (elim ms_Group_elim) simp_all
    then show ?thesis by (intro that[of w]) (simp_all only: lang_meridiem, simp_all)
  qed
  show ?thesis
    using h c mi sp mer by (intro that[of h c mi sp mer]) auto
qed

lemma digit_not_space: "is_digit c \<Longrightarrow> \<not> is_space c"
  by (auto simp: is_digit_def is_space_def)

lemma parseInt_digits:
  assumes "digit_run lo hi w" "0 < lo"
  shows "parseInt (Some w) = Some (digits_val w)"
proof -
  from assms obtain c cs where w: "w = c # cs" by (cases w) (auto simp: digit_run_def)
  from assms have all: "\<forall>x\<in>set w. is_digit x" by (simp add: digit_run_def)
  with w have c: "is_digit c" by simp
  then have "\<not> is_space c" "c \<noteq> 45" "c \<noteq> 43" by (auto simp: is_digit_def is_space_def)
  moreover from all have "takeWhile is_digit w = w" by (simp add: takeWhile_eq_all_conv)
  ultimately show ?thesis
    using w by (simp add: parseInt_def)
qed

lemma marker_upper:
  assumes "meridiem_marker mer"
  shows "mer \<noteq> []" "toUpperCase mer = js ''PM'' \<longleftrightarrow> ci 80 (hd mer)"
    "toUpperCase mer = js ''AM'' \<longleftrightarrow> \<not> ci 80 (hd mer)"
  using assms by (auto simp: meridiem_marker_def toUpperCase_def upper_def js_def ci_def)

lemma match_dateMatch_groups:
  assumes "match dateMatchRegex s = Some dm"
  obtains d a mo b y where "whole dm = d @ a # mo @ b # y"
    "digit_run 1 2 d" "is_sep a" "digit_run 1 2 mo" "is_sep b" "digit_run 2 4 y"
    "groups dm = [(3, y), (2, mo), (1, d)]"
proof -
  from match_Some(3)[OF assms] obtain pv others where
    "ms dateMatchRegex (last_opt (before dm), whole dm @ after dm, []) = (pv, after dm, groups dm) # others"
    by blast
  then have "(pv, after dm, groups dm) \<in> set (ms dateMatchRegex (last_opt (before dm), whole dm @ after dm, []))"
    by simp
  then obtain d a mo b y where *: "whole dm @ after dm = d @ a # mo @ b # y @ after dm"
    "digit_run 1 2 d" "is_sep a" "digit_run 1 2 mo" "is_sep b" "digit_run 2 4 y"
    "groups dm = [(3, y), (2, mo), (1, d)] @ []"
    by (rule dateMatch_caps)
  from *(1) have "whole dm = d @ a # mo @ b # y" by simp
  with *(2-7) show ?thesis by (intro that[of d a mo b y]) simp_all
qed

lemma match_timeMatch_groups:
  assumes "match timeMatchRegex s = Some tm"
  obtains h c mi sp mer where "whole tm = h @ c # mi @ sp @ mer"
    "digit_run 1 2 h" "is_colon c" "digit_run 2 2 mi"
    "sp = [] \<or> (\<exists>x. sp = [x] \<and> is_space x)"
    "(mer = [] \<and> groups tm = [(2, mi), (1, h)])
      \<or> (meridiem_marker mer \<and> groups tm = [(3, mer), (2, mi), (1, h)])"
proof -
  from match_Some(3)[OF assms] obtain pv others where
    "ms timeMatchRegex (last_opt (before tm), whole tm @ after tm, []) = (pv, after tm, groups tm) # others"
    by blast
  then have "(pv, after tm, groups tm) \<in> set (ms timeMatchRegex (last_opt (before tm), whole tm @ after tm, []))"
    by simp
  then obtain h c mi sp mer where *: "whole tm @ after tm = h @ c # mi @ sp @ mer @ after tm"
    "digit_run 1 2 h" "is_colon c" "digit_run 2 2 mi"
    "sp = [] \<or> (\<exists>x. sp = [x] \<and> is_space x)"
    "(mer = [] \<and> groups tm = [(2, mi), (1, h)] @ [])
      \<or> (meridiem_marker mer \<and> groups tm = [(3, mer), (2, mi), (1, h)] @ [])"
    by (rule timeMatch_caps)
  from *(1) have "whole tm = h @ c # mi @ sp @ mer" by simp
  with *(2-6) show ?thesis by (intro that[of h c mi sp mer]) simp_all
qed

lemma parseUserDate_no_time:
  assumes "s \<noteq> []" "match dateMatchRegex s = Some dm"
    "groups dm = [(3, y), (2, mo), (1, d)]"
    "digit_run 1 2 d" "digit_run 1 2 mo" "digit_run 2 4 y"
    "match timeMatchRegex s = None"
  shows "parseUserDate (Some s)
           = Some (Date (full_year (digits_val y)) (digits_val mo - 1) (digits_val d) 0 0)"
  using assms
  by (simp add: parseUserDate_def grp_def parseInt_digits newDate_def full_year_def)

lemma parseUserDate_time:
  assumes "s \<noteq> []" "match dateMatchRegex s = Some dm"
    "groups dm = [(3, y), (2, mo), (1, d)]"
    "digit_run 1 2 d" "digit_run 1 2 mo" "digit_run 2 4 y"
    "match timeMatchRegex s = Some tm"
    "digit_run 1 2 h" "digit_run 2 2 mi"
    "(mer = [] \<and> groups tm = [(2, mi), (1, h)])
      \<or> (meridiem_marker mer \<and> groups tm = [(3, mer), (2, mi), (1, h)])"
  shows "parseUserDate (Some s)
           = Some (Date (full_year (digits_val y)) (digits_val mo - 1) (digits_val d)
                (hour24 (digits_val h) mer) (digits_val mi))"
  using assms(10)
proof
  assume "mer = [] \<and> groups tm = [(2, mi), (1, h)]"
  with assms(1-9) show ?thesis
    by (simp add: parseUserDate_def grp_def parseInt_digits newDate_def full_year_def hour24_def)
next
  assume a: "meridiem_marker mer \<and> groups tm = [(3, mer), (2, mi), (1, h)]"
  with assms(1-9) marker_upper[of mer] show ?thesis
    by (simp add: parseUserDate_def grp_def parseInt_digits newDate_def full_year_def hour24_def)
qed

lemma parseUserDate_valid:
  assumes "s \<noteq> []" "match dateMatchRegex s = Some dm"
  shows "\<exists>y m d h mi. parseUserDate (Some s) = Some (Date y m d h mi)"
proof -
  from assms(2) obtain d mo y where dm: "digit_run 1 2 d" "digit_run 1 2 mo" "digit_run 2 4 y"
    "groups dm = [(3, y), (2, mo), (1, d)]"
    by (rule match_dateMatch_groups)
  show ?thesis
  proof (cases "match timeMatchRegex s")
    case None
    from parseUserDate_no_time[OF assms dm(4,1,2,3) None] show ?thesis by blast
  next
    case (Some tm)
    then obtain h mi mer where tm: "digit_run 1 2 h" "digit_run 2 2 mi"
      "(mer = [] \<and> groups tm = [(2, mi), (1, h)])
        \<or> (meridiem_marker mer \<and> groups tm = [(3, mer), (2, mi), (1, h)])"
      by (rule match_timeMatch_groups)
    from parseUserDate_time[OF assms dm(4,1,2,3) Some tm] show ?thesis by blast
  qed
qed

lemma parseUserDate_None_iff:
  "parseUserDate u = None \<longleftrightarrow> u = None \<or> u = Some [] \<or> (\<exists>s. u = Some s \<and> match dateMatchRegex s = None)"
proof (cases u)
  case None
  then show ?thesis by (simp add: parseUserDate_def)
next
  case (Some s)
  show ?thesis
  proof (cases "s = []")
    case True
    with Some show ?thesis by (simp add: parseUserDate_def)
  next
    case False
    show ?thesis
    proof (cases "match dateMatchRegex s")
      case None
      with Some False show ?thesis by (simp add: parseUserDate_def)
    next
      case (Some dm)
      from parseUserDate_valid[OF False Some] \<open>u = Some s\<close> False Some show ?thesis by auto
    qed
  qed
qed

lemma accepted_has_segment: "accepted_date_time m \<Longrightarrow> occurs date_segment m"
proof -
  assume "accepted_date_time m"
  then consider "date_segment m" | d t where "m = d @ t" "date_segment d"
    by (auto simp: accepted_date_time_def)
  then show ?thesis
  proof cases
    case 1
    then have "m = [] @ m @ [] \<and> date_segment m" by simp
    then show ?thesis unfolding occurs_def by blast
  next
    case 2
    then have "m = [] @ d @ t \<and> date_segment d" by simp
    then show ?thesis unfolding occurs_def by blast
  qed
qed

lemma match_dateMatch_None: "match dateMatchRegex s = None \<longleftrightarrow> \<not> occurs date_segment s"
  using match_None[OF wbfree_patterns(2), of s]
  by (simp only: lang_dateMatchRegex occurs_def)

lemma extractDateTime_Some:
  assumes "extractDateTime s = Some m"
  obtains mm where "match dateTimeRegex s = Some mm" "whole mm = m"
  using assms by (auto simp: extractDateTime_def split: option.splits if_splits)

section \<open>Greedy matching is deterministic on stored dates\<close>

lemma reps_cls_seq:
  assumes kill: "\<And>pv' x xs. p x \<Longrightarrow> F (pv', x # xs, cp) = []"
  shows "\<forall>x\<in>set w. p x \<Longrightarrow> lo \<le> length w \<Longrightarrow> length w \<le> hi \<Longrightarrow>
         length w = hi \<or> rest = [] \<or> \<not> p (hd rest) \<Longrightarrow>
         concat (map F (reps (ms (Cls p)) lo hi (pv, w @ rest, cp))) = F (lastopt pv w, rest, cp)"
proof (induction hi arbitrary: lo w pv)
  case 0
  then show ?case by simp
next
  case (Suc n)
  show ?case
  proof (cases w)
    case Nil
    with Suc.prems have "ms (Cls p) (pv, rest, cp) = []"
      by (cases rest) auto
    with Nil Suc.prems show ?thesis by simp
  next
    case (Cons x w')
    with Suc.prems have px: "p x" and 1: "\<forall>x\<in>set w'. p x" "lo - 1 \<le> length w'" "length w' \<le> n"
      "length w' = n \<or> rest = [] \<or> \<not> p (hd rest)" by auto
    from px have "ms (Cls p) (pv, (x # w') @ rest, cp) = [(Some x, w' @ rest, cp)]" by simp
    moreover from kill[OF px] have "F (pv, (x # w') @ rest, cp) = []" by simp
    moreover note Suc.IH[OF 1, of "Some x"]
    ultimately show ?thesis using Cons by simp
  qed
qed

lemma reps_cls_head:
  "\<forall>x\<in>set w. p x \<Longrightarrow> lo \<le> length w \<Longrightarrow> length w \<le> hi \<Longrightarrow>
    length w = hi \<or> rest = [] \<or> \<not> p (hd rest) \<Longrightarrow>
    \<exists>others. reps (ms (Cls p)) lo hi (pv, w @ rest, cp) = (lastopt pv w, rest, cp) # others"
proof (induction hi arbitrary: lo w pv)
  case 0
  then show ?case by simp
next
  case (Suc n)
  show ?case
  proof (cases w)
    case Nil
    with Suc.prems have "ms (Cls p) (pv, rest, cp) = []"
      by (cases rest) auto
    with Nil Suc.prems show ?thesis by simp
  next
    case (Cons x w')
    with Suc.prems have px: "p x" and 1: "\<forall>x\<in>set w'. p x" "lo - 1 \<le> length w'" "length w' \<le> n"
      "length w' = n \<or> rest = [] \<or> \<not> p (hd rest)" by auto
    from px have "ms (Cls p) (pv, (x # w') @ rest, cp) = [(Some x, w' @ rest, cp)]" by simp
    moreover from Suc.IH[OF 1, of "Some x"] obtain others where
      "reps (ms (Cls p)) (lo - 1) n (Some x, w' @ rest, cp) = (lastopt (Some x) w', rest, cp) # others"
      by blast
    ultimately show ?thesis using Cons by simp
  qed
qed

lemma reps_cls_exact:
  "\<forall>x\<in>set w. p x \<Longrightarrow> length w = n \<Longrightarrow>
    reps (ms (Cls p)) n n (pv, w @ rest, cp) = [(lastopt pv w, rest, cp)]"
proof (induction n arbitrary: w pv)
  case 0
  then show ?case by simp
next
  case (Suc n)
  then obtain x w' where w: "w = x # w'" by (cases w) auto
  with Suc.prems have px: "p x" and 1: "\<forall>x\<in>set w'. p x" "length w' = n" by auto
  from px have "ms (Cls p) (pv, (x # w') @ rest, cp) = [(Some x, w' @ rest, cp)]" by simp
  with Suc.IH[OF 1, of "Some x"] w show ?case by simp
qed

lemma seq_digits:
  assumes "\<forall>x\<in>set w. p x" "lo \<le> length w" "length w \<le> hi"
    "length w = hi \<or> rest = [] \<or> \<not> p (hd rest)"
    and kill: "\<And>pv' x xs cp'. p x \<Longrightarrow> ms b (pv', x # xs, cp') = []"
  shows "ms (Seq (Rep lo hi (Cls p)) b) (pv, w @ rest, cp) = ms b (lastopt pv w, rest, cp)"
proof -
  have "concat (map (ms b) (reps (ms (Cls p)) lo hi (pv, w @ rest, cp)))
          = ms b (lastopt pv w, rest, cp)"
    by (rule reps_cls_seq[where F = "ms b", OF kill assms(1-4)])
  then show ?thesis by simp
qed

lemma seq_group_digits:
  assumes "\<forall>x\<in>set w. p x" "lo \<le> length w" "length w \<le> hi"
    "length w = hi \<or> rest = [] \<or> \<not> p (hd rest)"
    and kill: "\<And>pv' x xs cp'. p x \<Longrightarrow> ms b (pv', x # xs, cp') = []"
  shows "ms (Seq (Group n (Rep lo hi (Cls p))) b) (pv, w @ rest, cp)
           = ms b (lastopt pv w, rest, (n, w) # cp)"
proof -
  let ?F = "\<lambda>(pv', rs', cp'). ms b (pv', rs', (n, take (length (w @ rest) - length rs') (w @ rest)) # cp')"
  have "concat (map ?F (reps (ms (Cls p)) lo hi (pv, w @ rest, cp)))
          = ?F (lastopt pv w, rest, cp)"
    by (rule reps_cls_seq[where F = ?F, OF _ assms(1-4)]) (simp add: kill)
  moreover have "ms (Seq (Group n (Rep lo hi (Cls p))) b) (pv, w @ rest, cp)
      = concat (map ?F (reps (ms (Cls p)) lo hi (pv, w @ rest, cp)))"
    by (simp add: map_concat comp_def case_prod_unfold)
  ultimately show ?thesis by simp
qed

lemma seq_group_exact:
  assumes "\<forall>x\<in>set w. p x" "length w = k"
  shows "ms (Seq (Group n (Rep k k (Cls p))) b) (pv, w @ rest, cp)
           = ms b (lastopt pv w, rest, (n, w) # cp)"
  using reps_cls_exact[OF assms, of pv rest cp] assms(2) by simp

lemma group_head:
  assumes "\<forall>x\<in>set w. p x" "lo \<le> length w" "length w \<le> hi"
    "length w = hi \<or> rest = [] \<or> \<not> p (hd rest)"
  shows "\<exists>others. ms (Group n (Rep lo hi (Cls p))) (pv, w @ rest, cp)
           = (lastopt pv w, rest, (n, w) # cp) # others"
proof -
  from reps_cls_head[OF assms, of pv cp] obtain others where
    "reps (ms (Cls p)) lo hi (pv, w @ rest, cp) = (lastopt pv w, rest, cp) # others" by blast
  then show ?thesis by simp
qed

lemma sep_not_digit: "is_sep c \<Longrightarrow> \<not> is_digit c"
  by (auto simp: is_sep_def is_digit_def)

lemma colon_not_digit: "is_colon c \<Longrightarrow> \<not> is_digit c"
  by (auto simp: is_colon_def is_digit_def)

lemma space_not_digit: "is_space c \<Longrightarrow> \<not> is_digit c"
  by (auto simp: is_space_def is_digit_def)

lemma dateMatch_head:
  assumes d: "digit_run 1 2 d" and a: "is_sep a" and mo: "digit_run 1 2 mo" and b: "is_sep b"
    and y: "digit_run 2 4 y" and mx: "length y = 4 \<or> rest = [] \<or> \<not> is_digit (hd rest)"
  shows "\<exists>pv' others. ms dateMatchRegex (pv, d @ a # mo @ b # y @ rest, cp)
           = (pv', rest, [(3, y), (2, mo), (1, d)] @ cp) # others"
proof -
  let ?r3 = "Group 3 (Rep 2 4 D)"
  let ?r2 = "Seq (Group 2 (Rep 1 2 D)) (Seq (Cls is_sep) ?r3)"
  have k: "\<And>r pv' x xs cp'. is_digit x \<Longrightarrow> ms (Seq (Cls is_sep) r) (pv', x # xs, cp') = []"
    using sep_not_digit by auto
  from d a have "ms dateMatchRegex (pv, d @ (a # mo @ b # y @ rest), cp)
      = ms (Seq (Cls is_sep) ?r2) (lastopt pv d, a # mo @ b # y @ rest, (1, d) # cp)"
    unfolding dateMatchRegex_def
    by (intro seq_group_digits k) (auto simp: digit_run_def sep_not_digit)
  also from a have "\<dots> = ms ?r2 (Some a, mo @ (b # y @ rest), (1, d) # cp)" by simp
  also from mo b have "\<dots> = ms (Seq (Cls is_sep) ?r3) (lastopt (Some a) mo, b # y @ rest, (2, mo) # (1, d) # cp)"
    by (intro seq_group_digits k) (auto simp: digit_run_def sep_not_digit)
  also from b have "\<dots> = ms ?r3 (Some b, y @ rest, (2, mo) # (1, d) # cp)" by simp
  finally have "ms dateMatchRegex (pv, d @ a # mo @ b # y @ rest, cp)
      = ms ?r3 (Some b, y @ rest, (2, mo) # (1, d) # cp)" by simp
  moreover from y mx obtain others where
    "ms ?r3 (Some b, y @ rest, (2, mo) # (1, d) # cp)
       = (lastopt (Some b) y, rest, (3, y) # (2, mo) # (1, d) # cp) # others"
    using group_head[of y is_digit 2 4 rest 3 "Some b" "(2, mo) # (1, d) # cp"]
    by (auto simp: digit_run_def)
  ultimately show ?thesis by simp
qed

lemma match_dateMatch_canonical:
  assumes d: "digit_run 1 2 d" and a: "is_sep a" and mo: "digit_run 1 2 mo" and b: "is_sep b"
    and y: "digit_run 2 4 y" and mx: "length y = 4 \<or> rest = [] \<or> \<not> is_digit (hd rest)"
  shows "match dateMatchRegex (d @ a # mo @ b # y @ rest)
           = Some \<lparr>before = [], whole = d @ a # mo @ b # y, after = rest,
                   groups = [(3, y), (2, mo), (1, d)]\<rparr>"
proof -
  from dateMatch_head[OF assms, of None "[]"] obtain pv' others where
    "ms dateMatchRegex (last_opt [], d @ a # mo @ b # y @ rest, [])
           = (pv', rest, [(3, y), (2, mo), (1, d)]) # others"
    by (auto simp: last_opt_def)
  from scan_Cons[OF this] show ?thesis by (simp add: match_def)
qed

lemma scan_skip:
  assumes "\<And>u1 u2. u = u1 @ u2 \<Longrightarrow> u2 \<noteq> [] \<Longrightarrow> ms r (last_opt (pre @ u1), u2 @ v, []) = []"
  shows "scan r pre (u @ v) = scan r (pre @ u) v"
  using assms
proof (induction u arbitrary: pre)
  case Nil
  then show ?case by simp
next
  case (Cons x u)
  from Cons.prems[of "[]" "x # u"] have "ms r (last_opt pre, (x # u) @ v, []) = []" by simp
  from scan_Nil[OF this] have "scan r pre ((x # u) @ v) = scan r (pre @ [x]) (u @ v)" by simp
  also have "\<dots> = scan r ((pre @ [x]) @ u) v"
  proof (rule Cons.IH)
    fix u1 u2 assume "u = u1 @ u2" "u2 \<noteq> []"
    with Cons.prems[of "x # u1" u2] show "ms r (last_opt ((pre @ [x]) @ u1), u2 @ v, []) = []"
      by simp
  qed
  finally show ?case by simp
qed

lemma scan_all_fail:
  assumes "\<And>u1 u2. rest = u1 @ u2 \<Longrightarrow> ms r (last_opt (pre @ u1), u2, []) = []"
  shows "scan r pre rest = None"
  using assms
proof (induction rest arbitrary: pre)
  case Nil
  from Nil[of "[]" "[]"] have "ms r (last_opt pre, [], []) = []" by simp
  from scan_Nil[OF this] show ?case by simp
next
  case (Cons x xs)
  from Cons.prems[of "[]" "x # xs"] have "ms r (last_opt pre, x # xs, []) = []" by simp
  from scan_Nil[OF this] have "scan r pre (x # xs) = scan r (pre @ [x]) xs" by simp
  also have "\<dots> = None"
  proof (rule Cons.IH)
    fix u1 u2 assume "xs = u1 @ u2"
    with Cons.prems[of "x # u1" u2] show "ms r (last_opt ((pre @ [x]) @ u1), u2, []) = []"
      by simp
  qed
  finally show ?case .
qed

lemma time_needs_colon:
  assumes "\<forall>x\<in>set v. \<not> is_colon x"
  shows "ms timeMatchRegex (pv, v, cp) = []"
proof (cases "ms timeMatchRegex (pv, v, cp)")
  case Nil
  then show ?thesis .
next
  case (Cons st others)
  obtain pv' rs' cp' where "st = (pv', rs', cp')" by (cases st)
  with Cons have "(pv', rs', cp') \<in> set (ms timeMatchRegex (pv, v, cp))" by simp
  then obtain h c mi sp mer where "v = h @ c # mi @ sp @ mer @ rs'" "is_colon c"
    by (rule timeMatch_caps)
  with assms show ?thesis by auto
qed

lemma time_no_match_before:
  assumes "z \<noteq> []" "\<forall>x\<in>set z. \<not> is_colon x" "\<not> is_digit (last z)"
  shows "ms timeMatchRegex (pv, z @ v, cp) = []"
proof (cases "ms timeMatchRegex (pv, z @ v, cp)")
  case Nil
  then show ?thesis .
next
  case (Cons st others)
  obtain pv' rs' cp' where "st = (pv', rs', cp')" by (cases st)
  with Cons have "(pv', rs', cp') \<in> set (ms timeMatchRegex (pv, z @ v, cp))" by simp
  then obtain h c mi sp mer where *: "z @ v = h @ c # mi @ sp @ mer @ rs'" "is_colon c"
    "digit_run 1 2 h"
    by (rule timeMatch_caps)
  from *(1) consider us where "z = h @ us" "us @ v = c # mi @ sp @ mer @ rs'"
    | us where "z @ us = h"
    by (auto simp: append_eq_append_conv2)
  then have False
  proof cases
    case 1
    show False
    proof (cases us)
      case Nil
      with 1 *(3) assms(1,3) show False by (auto simp: digit_run_def)
    next
      case (Cons x us')
      with 1 have "c \<in> set z" by auto
      with assms(2) *(2) show False by auto
    qed
  next
    case 2
    with assms(1) have "last z \<in> set h" by auto
    with *(3) assms(3) show False by (auto simp: digit_run_def)
  qed
  then show ?thesis ..
qed

lemma marker_not_space: "ci 65 c \<or> ci 80 c \<Longrightarrow> \<not> is_space c"
  by (auto simp: ci_def is_space_def)

lemma ms_Opt: "ms (Opt r) st = ms r st @ [st]" "ms (Rep 0 (Suc 0) r) st = ms r st @ [st]"
proof -
  have "concat (map (\<lambda>x. [x]) xs) = xs" for xs :: "mstate list"
    by (induction xs) auto
  moreover have "reps (ms r) 0 0 = (\<lambda>x. [x])"
    by (rule ext) simp
  ultimately show "ms (Opt r) st = ms r st @ [st]" by (simp add: reps_numeral)
  then show "ms (Rep 0 (Suc 0) r) st = ms r st @ [st]" by simp
qed

lemma ms_meridiem:
  assumes "meridiem_marker mer"
  shows "ms meridiem (pv, mer, cp) = [(Some (last mer), [], cp)]"
proof -
  from assms obtain c1 c2 where mer: "mer = [c1, c2]" and c: "ci 65 c1 \<or> ci 80 c1" "ci 77 c2"
    by (auto simp: meridiem_marker_def)
  have "\<not> (ci 65 c1 \<and> ci 80 c1)" by (auto simp: ci_def)
  with c show ?thesis unfolding mer meridiem_def by auto
qed

lemma ms_meridiem_Nil: "ms meridiem (pv, [], cp) = []"
  by (simp add: meridiem_def)

lemma ms_opt_marker:
  assumes "mer = [] \<or> meridiem_marker mer"
  shows "\<exists>pv' others. ms (Opt (Group 3 meridiem)) (pv, mer, cp)
             = (pv', [], (if mer = [] then cp else (3, mer) # cp)) # others"
  using assms
proof
  assume "mer = []"
  then show ?thesis by (simp add: ms_Opt ms_meridiem_Nil del: ms.simps(4))
next
  assume m: "meridiem_marker mer"
  then have "mer \<noteq> []" by (auto simp: meridiem_marker_def)
  with ms_meridiem[OF m, of pv cp] show ?thesis by (simp add: ms_Opt del: ms.simps(4))
qed

lemma time_tail_head:
  assumes "sp = [] \<or> (\<exists>x. sp = [x] \<and> is_space x)" "mer = [] \<or> meridiem_marker mer"
  shows "\<exists>pv' others. ms (Seq (Opt (Cls is_space)) (Opt (Group 3 meridiem))) (pv, sp @ mer, cp)
           = (pv', [], (if mer = [] then cp else (3, mer) # cp)) # others"
  using assms(1)
proof
  assume sp: "sp = []"
  have "ms (Cls is_space) (pv, mer, cp) = []"
    using assms(2) marker_not_space by (auto simp: meridiem_marker_def)
  then have "ms (Seq (Opt (Cls is_space)) (Opt (Group 3 meridiem))) (pv, sp @ mer, cp)
      = ms (Opt (Group 3 meridiem)) (pv, mer, cp)"
    unfolding sp ms.simps(2) ms_Opt(1)[of "Cls is_space"] by (simp del: ms.simps(4))
  with ms_opt_marker[OF assms(2), of pv cp] show ?thesis by (simp del: ms.simps(4))
next
  assume "\<exists>x. sp = [x] \<and> is_space x"
  then obtain x where sp: "sp = [x]" and x: "is_space x" by blast
  from x have "ms (Cls is_space) (pv, x # mer, cp) = [(Some x, mer, cp)]" by simp
  then have "ms (Seq (Opt (Cls is_space)) (Opt (Group 3 meridiem))) (pv, sp @ mer, cp)
      = ms (Opt (Group 3 meridiem)) (Some x, mer, cp)
        @ ms (Opt (Group 3 meridiem)) (pv, x # mer, cp)"
    unfolding sp ms.simps(2) ms_Opt(1)[of "Cls is_space"] by (simp del: ms.simps(4))
  with ms_opt_marker[OF assms(2), of "Some x" cp] show ?thesis by (auto simp del: ms.simps(4))
qed

lemma timeMatch_head:
  assumes h: "digit_run 1 2 h" and c: "is_colon c" and mi: "digit_run 2 2 mi"
    and sp: "sp = [] \<or> (\<exists>x. sp = [x] \<and> is_space x)" and mer: "mer = [] \<or> meridiem_marker mer"
  shows "\<exists>pv' others. ms timeMatchRegex (pv, h @ c # mi @ sp @ mer, cp)
           = (pv', [], (if mer = [] then [] else [(3, mer)]) @ [(2, mi), (1, h)] @ cp) # others"
proof -
  let ?t = "Seq (Opt (Cls is_space)) (Opt (Group 3 meridiem))"
  let ?r2 = "Seq (Group 2 (Rep 2 2 D)) ?t"
  have k: "\<And>r pv' x xs cp'. is_digit x \<Longrightarrow> ms (Seq (Cls is_colon) r) (pv', x # xs, cp') = []"
    using colon_not_digit by auto
  from h c have "ms timeMatchRegex (pv, h @ (c # mi @ sp @ mer), cp)
      = ms (Seq (Cls is_colon) ?r2) (lastopt pv h, c # mi @ sp @ mer, (1, h) # cp)"
    unfolding timeMatchRegex_def
    by (intro seq_group_digits k) (auto simp: digit_run_def colon_not_digit)
  also from c have "\<dots> = ms ?r2 (Some c, mi @ (sp @ mer), (1, h) # cp)" by simp
  also from mi have "\<dots> = ms ?t (lastopt (Some c) mi, sp @ mer, (2, mi) # (1, h) # cp)"
    by (intro seq_group_exact) (auto simp: digit_run_def)
  finally have "ms timeMatchRegex (pv, h @ c # mi @ sp @ mer, cp)
      = ms ?t (lastopt (Some c) mi, sp @ mer, (2, mi) # (1, h) # cp)" by simp
  with time_tail_head[OF sp mer, of "lastopt (Some c) mi" "(2, mi) # (1, h) # cp"]
  show ?thesis by (auto simp del: ms.simps)
qed

lemma match_timeMatch_canonical:
  assumes z: "\<forall>x\<in>set z. \<not> is_colon x" "z = [] \<or> \<not> is_digit (last z)"
    and h: "digit_run 1 2 h" and c: "is_colon c" and mi: "digit_run 2 2 mi"
    and sp: "sp = [] \<or> (\<exists>x. sp = [x] \<and> is_space x)" and mer: "mer = [] \<or> meridiem_marker mer"
  shows "match timeMatchRegex (z @ h @ c # mi @ sp @ mer)
           = Some \<lparr>before = z, whole = h @ c # mi @ sp @ mer, after = [],
                   groups = (if mer = [] then [] else [(3, mer)]) @ [(2, mi), (1, h)]\<rparr>"
proof -
  let ?v = "h @ c # mi @ sp @ mer"
  have "scan timeMatchRegex [] (z @ ?v) = scan timeMatchRegex ([] @ z) ?v"
  proof (rule scan_skip)
    fix u1 u2 assume u: "z = u1 @ u2" "u2 \<noteq> []"
    with z have "\<forall>x\<in>set u2. \<not> is_colon x" "\<not> is_digit (last u2)" by auto
    with u(2) show "ms timeMatchRegex (last_opt ([] @ u1), u2 @ ?v, []) = []"
      by (intro time_no_match_before)
  qed
  moreover from timeMatch_head[OF h c mi sp mer, of "last_opt z" "[]"] obtain pv' others where
    "ms timeMatchRegex (last_opt z, ?v, [])
       = (pv', [], (if mer = [] then [] else [(3, mer)]) @ [(2, mi), (1, h)]) # others"
    by auto
  from scan_Cons[OF this] have "scan timeMatchRegex z ?v
     = Some \<lparr>before = z, whole = ?v, after = [],
             groups = (if mer = [] then [] else [(3, mer)]) @ [(2, mi), (1, h)]\<rparr>"
    by simp
  ultimately show ?thesis by (simp add: match_def)
qed

lemma match_timeMatch_no_colon:
  assumes "\<forall>x\<in>set s. \<not> is_colon x"
  shows "match timeMatchRegex s = None"
  unfolding match_def
proof (rule scan_all_fail)
  fix u1 u2 assume "s = u1 @ u2"
  with assms have "\<forall>x\<in>set u2. \<not> is_colon x" by auto
  then show "ms timeMatchRegex (last_opt ([] @ u1), u2, []) = []" by (rule time_needs_colon)
qed

lemma lang_Seq_Opt:
  "w \<in> lang (Seq (Opt r) b) \<longleftrightarrow> (\<exists>u v. w = u @ v \<and> (u = [] \<or> u \<in> lang r) \<and> v \<in> lang b)"
  unfolding lang_Seq_Rep lang_Opt ..

lemma lang_timeMatchRegex:
  "w \<in> lang timeMatchRegex \<longleftrightarrow>
     (\<exists>h c mi sp mer. w = h @ c # mi @ sp @ mer \<and> digit_run 1 2 h \<and> is_colon c
        \<and> digit_run 2 2 mi \<and> (sp = [] \<or> (\<exists>x. sp = [x] \<and> is_space x))
        \<and> (mer = [] \<or> meridiem_marker mer))"
proof
  assume "w \<in> lang timeMatchRegex"
  then obtain h c mi sp mer where "w = h @ c # mi @ sp @ mer"
    "digit_run 1 2 h" "is_colon c" "digit_run 2 2 mi"
    "sp = [] \<or> (\<exists>x. sp = [x] \<and> is_space x)" "mer = [] \<or> meridiem_marker mer"
    unfolding timeMatchRegex_def lang_Seq_Group lang_Seq_Cls lang_Seq_Opt lang_D lang_Opt lang_Cls
      lang_Group lang_meridiem
    by (elim exE conjE) simp
  then show "\<exists>h c mi sp mer. w = h @ c # mi @ sp @ mer \<and> digit_run 1 2 h \<and> is_colon c
        \<and> digit_run 2 2 mi \<and> (sp = [] \<or> (\<exists>x. sp = [x] \<and> is_space x))
        \<and> (mer = [] \<or> meridiem_marker mer)"
    by (intro exI conjI)
next
  assume "\<exists>h c mi sp mer. w = h @ c # mi @ sp @ mer \<and> digit_run 1 2 h \<and> is_colon c
        \<and> digit_run 2 2 mi \<and> (sp = [] \<or> (\<exists>x. sp = [x] \<and> is_space x))
        \<and> (mer = [] \<or> meridiem_marker mer)"
  then obtain h c mi sp mer where "w = h @ c # mi @ sp @ mer"
    "digit_run 1 2 h" "is_colon c" "digit_run 2 2 mi"
    "sp = [] \<or> (\<exists>x. sp = [x] \<and> is_space x)" "mer = [] \<or> meridiem_marker mer"
    by (elim exE conjE)
  then show "w \<in> lang timeMatchRegex"
    unfolding timeMatchRegex_def lang_Seq_Group lang_Seq_Cls lang_Seq_Opt lang_D lang_Opt lang_Cls
      lang_Group lang_meridiem
    by (intro exI conjI) (assumption | rule refl)+
qed

lemma match_timeMatch_None: "match timeMatchRegex s = None \<longleftrightarrow> \<not> occurs clock_time s"
proof -
  have "occurs clock_time s \<longleftrightarrow> (\<exists>pre w post. s = pre @ w @ post \<and> w \<in> lang timeMatchRegex)"
  proof
    assume "occurs clock_time s"
    then obtain pre h c mi post where s: "s = pre @ (h @ c # mi) @ post"
      and *: "digit_run 1 2 h" "is_colon c" "digit_run 2 2 mi"
      by (auto simp: occurs_def clock_time_def)
    from * have "h @ c # mi @ [] @ [] \<in> lang timeMatchRegex"
      unfolding lang_timeMatchRegex by (intro exI conjI) (assumption | rule refl | simp)+
    with s show "\<exists>pre w post. s = pre @ w @ post \<and> w \<in> lang timeMatchRegex"
      by (intro exI[of _ pre] exI[of _ "h @ c # mi"] exI[of _ post]) simp
  next
    assume "\<exists>pre w post. s = pre @ w @ post \<and> w \<in> lang timeMatchRegex"
    then obtain pre h c mi sp mer post where s: "s = pre @ (h @ c # mi @ sp @ mer) @ post"
      and *: "digit_run 1 2 h" "is_colon c" "digit_run 2 2 mi"
      unfolding lang_timeMatchRegex by blast
    from * have "clock_time (h @ c # mi)" unfolding clock_time_def by blast
    moreover from s have "s = pre @ (h @ c # mi) @ (sp @ mer @ post)" by simp
    ultimately show "occurs clock_time s" unfolding occurs_def by blast
  qed
  with match_None[OF wbfree_patterns(3), of s] show ?thesis by simp
qed

lemma digits_val_snoc: "digits_val (w @ [c]) = 10 * digits_val w + (int c - 48)"
  by (simp add: digits_val_def)

lemma digits_val_bound:
  "\<forall>c\<in>set w. is_digit c \<Longrightarrow> 0 \<le> digits_val w \<and> digits_val w < 10 ^ length w"
proof (induction w rule: rev_induct)
  case Nil
  then show ?case by (simp add: digits_val_def)
next
  case (snoc c w)
  then have "0 \<le> digits_val w" "digits_val w + 1 \<le> 10 ^ length w" "48 \<le> c" "c \<le> 57"
    by (auto simp: is_digit_def)
  then show ?case by (simp add: digits_val_snoc)
qed

lemma two_digit_year:
  assumes "digit_run 2 2 y"
  shows "full_year (digits_val y) = digits_val y + 2000"
proof -
  from assms have "length y = 2" "\<forall>c\<in>set y. is_digit c" by (auto simp: digit_run_def)
  with digits_val_bound[of y] show ?thesis by (simp add: full_year_def)
qed

lemma digit_not_colon: "is_digit c \<Longrightarrow> \<not> is_colon c"
  by (simp add: is_digit_def is_colon_def)

lemma sep_not_colon: "is_sep c \<Longrightarrow> \<not> is_colon c"
  by (auto simp: is_sep_def is_colon_def)

lemma space_not_colon: "is_space c \<Longrightarrow> \<not> is_colon c"
  by (auto simp: is_space_def is_colon_def)

lemma date_no_colon:
  assumes "digit_run 1 2 d" "is_sep a" "digit_run 1 2 mo" "is_sep b" "digit_run 2 4 y"
  shows "\<forall>x\<in>set (d @ a # mo @ b # y). \<not> is_colon x"
  using assms by (auto simp: digit_run_def dest: digit_not_colon sep_not_colon)

lemma parseUserDate_date_only:
  assumes "digit_run 1 2 d" "is_sep a" "digit_run 1 2 mo" "is_sep b" "digit_run 2 4 y"
  shows "parseUserDate (Some (d @ a # mo @ b # y))
           = Some (Date (full_year (digits_val y)) (digits_val mo - 1) (digits_val d) 0 0)"
proof -
  let ?s = "d @ a # mo @ b # y"
  have 1: "match dateMatchRegex ?s
      = Some \<lparr>before = [], whole = d @ a # mo @ b # y, after = [], groups = [(3, y), (2, mo), (1, d)]\<rparr>"
    using match_dateMatch_canonical[OF assms, of "[]"] by simp
  have 2: "match timeMatchRegex ?s = None"
    by (rule match_timeMatch_no_colon) (rule date_no_colon[OF assms])
  have 3: "?s \<noteq> []" by simp
  show ?thesis
    by (rule parseUserDate_no_time[OF 3 1 _ assms(1,3,5) 2]) simp
qed

lemma parseUserDate_date_time:
  assumes "digit_run 1 2 d" "is_sep a" "digit_run 1 2 mo" "is_sep b" "digit_run 2 4 y"
    and "ws \<noteq> []" "\<forall>x\<in>set ws. is_space x"
    and "digit_run 1 2 h" "is_colon c" "digit_run 2 2 mi"
    and "sp = [] \<or> (\<exists>x. sp = [x] \<and> is_space x)" "mer = [] \<or> meridiem_marker mer"
  shows "parseUserDate (Some (d @ a # mo @ b # y @ ws @ h @ c # mi @ sp @ mer))
           = Some (Date (full_year (digits_val y)) (digits_val mo - 1) (digits_val d)
                (hour24 (digits_val h) mer) (digits_val mi))"
proof -
  let ?s = "d @ a # mo @ b # y @ ws @ h @ c # mi @ sp @ mer"
  let ?z = "(d @ a # mo @ b # y) @ ws"
  from assms(6,7) have "\<not> is_digit (hd (ws @ h @ c # mi @ sp @ mer))"
    by (cases ws) (simp_all add: space_not_digit)
  then have 1: "match dateMatchRegex ?s
      = Some \<lparr>before = [], whole = d @ a # mo @ b # y, after = ws @ h @ c # mi @ sp @ mer,
              groups = [(3, y), (2, mo), (1, d)]\<rparr>"
    using match_dateMatch_canonical[OF assms(1-5), of "ws @ h @ c # mi @ sp @ mer"] by simp
  have "\<forall>x\<in>set ?z. \<not> is_colon x"
    using date_no_colon[OF assms(1-5)] assms(7) by (auto dest: space_not_colon)
  moreover have "?z = [] \<or> \<not> is_digit (last ?z)"
    using assms(6,7) by (simp add: space_not_digit)
  ultimately have "match timeMatchRegex (?z @ h @ c # mi @ sp @ mer)
      = Some \<lparr>before = ?z, whole = h @ c # mi @ sp @ mer, after = [],
                   groups = (if mer = [] then [] else [(3, mer)]) @ [(2, mi), (1, h)]\<rparr>"
    using assms(8-12) by (rule match_timeMatch_canonical)
  then have 2: "match timeMatchRegex ?s
      = Some \<lparr>before = ?z, whole = h @ c # mi @ sp @ mer, after = [],
                   groups = (if mer = [] then [] else [(3, mer)]) @ [(2, mi), (1, h)]\<rparr>"
    by simp
  have 3: "?s \<noteq> []" by simp
  show ?thesis
  proof (rule parseUserDate_time[OF 3 1 _ assms(1,3,5) 2 assms(8,10)])
    show "groups \<lparr>before = [], whole = d @ a # mo @ b # y, after = ws @ h @ c # mi @ sp @ mer,
              groups = [(3, y), (2, mo), (1, d)]\<rparr> = [(3, y), (2, mo), (1, d)]" by simp
    from assms(12) show "(mer = [] \<and> groups \<lparr>before = ?z, whole = h @ c # mi @ sp @ mer, after = [],
          groups = (if mer = [] then [] else [(3, mer)]) @ [(2, mi), (1, h)]\<rparr> = [(2, mi), (1, h)])
      \<or> (meridiem_marker mer \<and> groups \<lparr>before = ?z, whole = h @ c # mi @ sp @ mer, after = [],
          groups = (if mer = [] then [] else [(3, mer)]) @ [(2, mi), (1, h)]\<rparr>
            = [(3, mer), (2, mi), (1, h)])"
      by (cases "mer = []") simp_all
  qed
qed

lemma digits_of_small: "n < 10 \<Longrightarrow> digits_of n = [48 + n]"
  by (simp add: digits_of.simps)

lemma digits_of_step: "10 \<le> n \<Longrightarrow> digits_of n = digits_of (n div 10) @ [48 + n mod 10]"
  by (subst digits_of.simps) simp

lemma digits_of_digits: "\<forall>c\<in>set (digits_of n). is_digit c"
proof (induction n rule: digits_of.induct)
  case (1 n)
  show ?case
  proof (cases "n < 10")
    case True
    then show ?thesis by (simp add: digits_of_small is_digit_def)
  next
    case False
    with 1 have "\<forall>c\<in>set (digits_of (n div 10)). is_digit c" by simp
    moreover have "n mod 10 < 10" by simp
    ultimately show ?thesis using False by (simp add: digits_of_step is_digit_def)
  qed
qed

lemma digits_val_digits_of: "digits_val (digits_of n) = int n"
proof (induction n rule: digits_of.induct)
  case (1 n)
  show ?case
  proof (cases "n < 10")
    case True
    then show ?thesis by (simp add: digits_of_small digits_val_def)
  next
    case False
    with 1 have "digits_val (digits_of (n div 10)) = int (n div 10)" by simp
    with False show ?thesis
      by (simp add: digits_of_step digits_val_snoc zdiv_int zmod_int)
  qed
qed

lemma digits_of_length1: "n < 10 \<Longrightarrow> length (digits_of n) = 1"
  by (simp add: digits_of_small)

lemma digits_of_length2: "10 \<le> n \<Longrightarrow> n < 100 \<Longrightarrow> length (digits_of n) = 2"
  using digits_of_length1[of "n div 10"] by (simp add: digits_of_step)

lemma digits_of_length3: "100 \<le> n \<Longrightarrow> n < 1000 \<Longrightarrow> length (digits_of n) = 3"
  using digits_of_length2[of "n div 10"] by (simp add: digits_of_step)

lemma digits_of_length4: "1000 \<le> n \<Longrightarrow> n < 10000 \<Longrightarrow> length (digits_of n) = 4"
  using digits_of_length3[of "n div 10"] by (simp add: digits_of_step)

lemma padStart2_run:
  assumes "n < 100"
  shows "digit_run 1 2 (padStart2 (digits_of n)) \<and> length (padStart2 (digits_of n)) = 2
    \<and> digits_val (padStart2 (digits_of n)) = int n"
proof (cases "n < 10")
  case True
  then have p: "padStart2 (digits_of n) = [48, 48 + n]"
    by (simp add: padStart2_def digits_of_small)
  from True show ?thesis
    by (simp add: p digit_run_def is_digit_def digits_val_def)
next
  case False
  have d: "\<forall>c\<in>set (digits_of n). is_digit c" by (rule digits_of_digits)
  from False assms have l: "length (digits_of n) = 2" by (simp add: digits_of_length2)
  then have p: "padStart2 (digits_of n) = digits_of n" by (simp add: padStart2_def)
  from l d show ?thesis
    by (simp add: p digit_run_def digits_val_digits_of)
qed

lemma today_roundtrip:
  assumes "getDate today < 100" "getMonth today < 99"
    "100 \<le> getFullYear today" "getFullYear today < 10000"
  shows "parseUserDate (Some (getTodayDate today))
           = Some (Date (int (getFullYear today)) (int (getMonth today)) (int (getDate today)) 0 0)"
proof -
  let ?dd = "padStart2 (digits_of (getDate today))"
  let ?mm = "padStart2 (digits_of (getMonth today + 1))"
  let ?yy = "digits_of (getFullYear today)"
  from assms have "length ?yy = 3 \<or> length ?yy = 4"
    using digits_of_length3[of "getFullYear today"] digits_of_length4[of "getFullYear today"] by (cases "getFullYear today < 1000") auto
  then have y: "digit_run 2 4 ?yy" using digits_of_digits by (auto simp: digit_run_def)
  have s: "is_sep 45" by (simp add: is_sep_def)
  from assms have m: "getMonth today + 1 < 100" by simp
  have "getTodayDate today = ?dd @ 45 # ?mm @ 45 # ?yy"
    by (simp add: getTodayDate_def Let_def)
  with parseUserDate_date_only[OF padStart2_run[OF assms(1), THEN conjunct1] s
      padStart2_run[OF m, THEN conjunct1] s y]
  show ?thesis
    using assms padStart2_run[OF assms(1)] padStart2_run[OF m]
    by (simp add: digits_val_digits_of full_year_def)
qed

lemma hour24_table:
  "hour24 12 (js ''AM'') = 0" "hour24 12 (js ''PM'') = 12"
  "h \<noteq> 12 \<Longrightarrow> hour24 h (js ''PM'') = h + 12" "h \<noteq> 12 \<Longrightarrow> hour24 h (js ''AM'') = h"
  "hour24 h [] = h"
  by (simp_all add: hour24_def js_def ci_def)

lemma parse_example:
  "parseUserDate (Some (js ''31-01-26 11:59 PM'')) = Some (Date 2026 0 31 23 59)"
  by (simp add: ev)

subsection \<open>The match is the longest one at its position\<close>

lemma many1_seq:
  assumes kill: "\<And>pv' x xs. p x \<Longrightarrow> F (pv', x # xs) = []"
  shows "w \<noteq> [] \<Longrightarrow> \<forall>x\<in>set w. p x \<Longrightarrow> rest = [] \<or> \<not> p (hd rest) \<Longrightarrow>
         concat (map F (many1 p (w @ rest))) = F (Some (last w), rest)"
proof (induction w)
  case Nil
  then show ?case by simp
next
  case (Cons x w)
  show ?case
  proof (cases "w = []")
    case True
    from Cons.prems have "many1 p rest = []" by (cases rest) auto
    with True Cons.prems show ?thesis by simp
  next
    case False
    then obtain y w' where w: "w = y # w'" by (cases w) auto
    with Cons.prems have "p y" by simp
    then have "F (Some x, w @ rest) = []" using w kill by simp
    moreover from Cons.IH[OF False] Cons.prems
    have "concat (map F (many1 p (w @ rest))) = F (Some (last w), rest)" by simp
    ultimately show ?thesis using Cons.prems False by simp
  qed
qed

lemma seq_plus:
  assumes "w \<noteq> []" "\<forall>x\<in>set w. p x" "rest = [] \<or> \<not> p (hd rest)"
    and kill: "\<And>pv' x xs cp'. p x \<Longrightarrow> ms b (pv', x # xs, cp') = []"
  shows "ms (Seq (Plus p) b) (pv, w @ rest, cp) = ms b (Some (last w), rest, cp)"
proof -
  let ?F = "\<lambda>(pv', rs'). ms b (pv', rs', cp)"
  have "concat (map ?F (many1 p (w @ rest))) = ?F (Some (last w), rest)"
    by (rule many1_seq[where F = ?F, OF _ assms(1-3)]) (simp add: kill)
  moreover have "ms (Seq (Plus p) b) (pv, w @ rest, cp) = concat (map ?F (many1 p (w @ rest)))"
    by (simp add: comp_def case_prod_unfold)
  ultimately show ?thesis by simp
qed

lemma seq_exact:
  assumes "\<forall>x\<in>set w. p x" "length w = k"
  shows "ms (Seq (Rep k k (Cls p)) b) (pv, w @ rest, cp) = ms b (lastopt pv w, rest, cp)"
  using reps_cls_exact[OF assms, of pv rest cp] assms(2) by simp

lemma reps_cls_fail:
  "0 < lo \<Longrightarrow> rs = [] \<or> \<not> p (hd rs) \<Longrightarrow> reps (ms (Cls p)) lo hi (pv, rs, cp) = []"
  by (cases hi; cases rs) auto

lemma seq_digits_kill:
  "0 < lo \<Longrightarrow> \<not> p x \<Longrightarrow> ms (Seq (Rep lo hi (Cls p)) b) (pv, x # xs, cp) = []"
  using reps_cls_fail[of lo "x # xs" p hi pv cp] by simp

lemma extend_year:
  "digit_run 2 4 y \<Longrightarrow>
     \<exists>Y R. y @ X = Y @ R \<and> digit_run 2 4 Y \<and> length y \<le> length Y
       \<and> (length Y = 4 \<or> R = [] \<or> \<not> is_digit (hd R))
       \<and> (X = [] \<or> \<not> is_digit (hd X) \<longrightarrow> Y = y \<and> R = X)"
proof (induction "4 - length y" arbitrary: y X)
  case 0
  then have "length y = 4" by (simp add: digit_run_def)
  with "0.prems" show ?case by (intro exI[of _ y] exI[of _ X]) simp
next
  case (Suc k)
  show ?case
  proof (cases "X = [] \<or> \<not> is_digit (hd X)")
    case True
    with Suc.prems show ?thesis by (intro exI[of _ y] exI[of _ X]) auto
  next
    case False
    then obtain x X' where X: "X = x # X'" "is_digit x" by (cases X) auto
    from Suc.hyps(2) Suc.prems have "k = 4 - length (y @ [x])" "digit_run 2 4 (y @ [x])"
      using X(2) by (auto simp: digit_run_def)
    from Suc.hyps(1)[OF this, of X'] obtain Y R where
      "(y @ [x]) @ X' = Y @ R" "digit_run 2 4 Y" "length (y @ [x]) \<le> length Y"
      "length Y = 4 \<or> R = [] \<or> \<not> is_digit (hd R)"
      by blast
    with X False show ?thesis by (intro exI[of _ Y] exI[of _ R]) auto
  qed
qed

lemma date_core_head:
  assumes d: "digit_run 1 2 d" and a: "is_sep a" and mo: "digit_run 1 2 mo" and b: "is_sep b"
    and y: "digit_run 2 4 y" and mx: "length y = 4 \<or> rest = [] \<or> \<not> is_digit (hd rest)"
  shows "\<exists>pv' others.
           ms (Seq (Rep 1 2 D) (Seq (Cls is_sep) (Seq (Rep 1 2 D) (Seq (Cls is_sep) (Rep 2 4 D)))))
              (pv, d @ a # mo @ b # y @ rest, cp)
           = (pv', rest, cp) # others"
proof -
  let ?r3 = "Rep 2 4 D"
  let ?r2 = "Seq (Rep 1 2 D) (Seq (Cls is_sep) ?r3)"
  have k: "\<And>r pv' x xs cp'. is_digit x \<Longrightarrow> ms (Seq (Cls is_sep) r) (pv', x # xs, cp') = []"
    using sep_not_digit by auto
  from d a have "ms (Seq (Rep 1 2 D) (Seq (Cls is_sep) ?r2)) (pv, d @ (a # mo @ b # y @ rest), cp)
      = ms (Seq (Cls is_sep) ?r2) (lastopt pv d, a # mo @ b # y @ rest, cp)"
    by (intro seq_digits k) (auto simp: digit_run_def sep_not_digit)
  also from a have "\<dots> = ms ?r2 (Some a, mo @ (b # y @ rest), cp)" by simp
  also from mo b have "\<dots> = ms (Seq (Cls is_sep) ?r3) (lastopt (Some a) mo, b # y @ rest, cp)"
    by (intro seq_digits k) (auto simp: digit_run_def sep_not_digit)
  also from b have "\<dots> = ms ?r3 (Some b, y @ rest, cp)" by simp
  finally have "ms (Seq (Rep 1 2 D) (Seq (Cls is_sep) ?r2)) (pv, d @ a # mo @ b # y @ rest, cp)
      = ms ?r3 (Some b, y @ rest, cp)" by simp
  moreover from y mx obtain others where
    "reps (ms D) 2 4 (Some b, y @ rest, cp) = (lastopt (Some b) y, rest, cp) # others"
    using reps_cls_head[of y is_digit 2 4 rest "Some b" cp]
    by (auto simp: digit_run_def)
  ultimately show ?thesis by simp
qed

lemma ms_shorter:
  assumes "ms r (pv, rs, cp) = (pv', rs', cp') # others"
  shows "length rs' \<le> length rs"
proof -
  from assms have "(pv', rs', cp') \<in> set (ms r (pv, rs, cp))" by simp
  from ms_sound[OF this] show ?thesis by auto
qed

lemma ms_meridiem_rest:
  assumes "meridiem_marker mer"
  shows "ms meridiem (pv, mer @ rest, cp) = [(Some (last mer), rest, cp)]"
proof -
  from assms obtain c1 c2 where mer: "mer = [c1, c2]" and c: "ci 65 c1 \<or> ci 80 c1" "ci 77 c2"
    by (auto simp: meridiem_marker_def)
  have "\<not> (ci 65 c1 \<and> ci 80 c1)" by (auto simp: ci_def)
  with c show ?thesis unfolding mer meridiem_def by auto
qed

lemma opt_marker_greedy:
  assumes "mer = [] \<or> meridiem_marker mer"
  shows "\<exists>pv' rs' cp' others. ms (Opt (Group 3 meridiem)) (pv, mer @ post, cp) = (pv', rs', cp') # others
           \<and> length rs' \<le> length post"
  using assms
proof
  assume "mer = []"
  show ?thesis
  proof (cases "ms (Group 3 meridiem) (pv, mer @ post, cp)")
    case Nil
    with \<open>mer = []\<close> show ?thesis by (simp add: ms_Opt del: ms.simps)
  next
    case (Cons st others)
    obtain pv' rs' cp' where st: "st = (pv', rs', cp')" by (cases st)
    from ms_shorter[OF Cons[unfolded st]] \<open>mer = []\<close> have "length rs' \<le> length post" by simp
    with Cons st show ?thesis by (simp add: ms_Opt del: ms.simps)
  qed
next
  assume "meridiem_marker mer"
  from ms_meridiem_rest[OF this, of pv post cp] show ?thesis
    by (simp add: ms_Opt del: ms.simps(4))
qed

lemma tail_greedy:
  assumes sp: "sp = [] \<or> (\<exists>x. sp = [x] \<and> is_space x)" and mer: "mer = [] \<or> meridiem_marker mer"
  shows "\<exists>pv' rs' cp' others.
           ms (Seq (Opt (Cls is_space)) (Opt (Group 3 meridiem))) (pv, sp @ mer @ post, cp)
             = (pv', rs', cp') # others
           \<and> length rs' \<le> length post"
  using sp
proof
  assume s: "sp = []"
  show ?thesis
  proof (cases "ms (Cls is_space) (pv, mer @ post, cp)")
    case Nil
    then have "ms (Seq (Opt (Cls is_space)) (Opt (Group 3 meridiem))) (pv, sp @ mer @ post, cp)
        = ms (Opt (Group 3 meridiem)) (pv, mer @ post, cp)"
      unfolding s ms.simps(2) ms_Opt(1)[of "Cls is_space"] by (simp del: ms.simps(4))
    with opt_marker_greedy[OF mer, of pv post cp] show ?thesis by (simp del: ms.simps)
  next
    case (Cons st others)
    then obtain x U where U: "mer @ post = x # U" "is_space x" "st = (Some x, U, cp)" "others = []"
      by (cases "mer @ post") (auto split: if_splits)
    from U(1,2) mer marker_not_space have m: "mer = []"
      by (cases mer) (auto simp: meridiem_marker_def)
    from Cons U have "ms (Seq (Opt (Cls is_space)) (Opt (Group 3 meridiem))) (pv, sp @ mer @ post, cp)
        = ms (Opt (Group 3 meridiem)) (Some x, U, cp)
          @ ms (Opt (Group 3 meridiem)) (pv, mer @ post, cp)"
      unfolding s ms.simps(2) ms_Opt(1)[of "Cls is_space"] by (simp del: ms.simps(4))
    moreover from opt_marker_greedy[of "[]" "Some x" U cp] obtain pv' rs' cp' others' where
      "ms (Opt (Group 3 meridiem)) (Some x, U, cp) = (pv', rs', cp') # others'" "length rs' \<le> length U"
      by auto
    moreover from U(1) m have "length U \<le> length post" by simp
    ultimately show ?thesis by (simp del: ms.simps)
  qed
next
  assume "\<exists>x. sp = [x] \<and> is_space x"
  then obtain x where s: "sp = [x]" and x: "is_space x" by blast
  from x have "ms (Cls is_space) (pv, x # mer @ post, cp) = [(Some x, mer @ post, cp)]" by simp
  then have "ms (Seq (Opt (Cls is_space)) (Opt (Group 3 meridiem))) (pv, sp @ mer @ post, cp)
      = ms (Opt (Group 3 meridiem)) (Some x, mer @ post, cp)
        @ ms (Opt (Group 3 meridiem)) (pv, x # mer @ post, cp)"
    unfolding s ms.simps(2) ms_Opt(1)[of "Cls is_space"] by (simp del: ms.simps(4))
  with opt_marker_greedy[OF mer, of "Some x" post cp] show ?thesis by (auto simp del: ms.simps)
qed

lemma time_part_greedy:
  assumes "accepted_time t"
  shows "\<exists>pv' rs' cp' others.
      ms (Seq (Plus is_space) (Seq (Rep 1 2 D) (Seq (Cls is_colon)
            (Seq (Rep 2 2 D) (Seq (Opt (Cls is_space)) (Opt (Group 3 meridiem)))))))
         (pv, t @ post, cp) = (pv', rs', cp') # others
      \<and> length rs' \<le> length post"
proof -
  let ?tail = "Seq (Opt (Cls is_space)) (Opt (Group 3 meridiem))"
  let ?r3 = "Seq (Rep 2 2 D) ?tail"
  let ?r2 = "Seq (Rep 1 2 D) (Seq (Cls is_colon) ?r3)"
  from assms obtain ws h c mi sp mer where t: "t = ws @ h @ c # mi @ sp @ mer"
    and ws: "ws \<noteq> []" "\<forall>x\<in>set ws. is_space x" and h: "digit_run 1 2 h" and c: "is_colon c"
    and mi: "digit_run 2 2 mi" and sp: "sp = [] \<or> (\<exists>x. sp = [x] \<and> is_space x)"
    and mer: "mer = [] \<or> meridiem_marker mer"
    unfolding accepted_time_def by blast
  from h obtain h0 h' where h0: "h = h0 # h'" "is_digit h0" by (cases h) (auto simp: digit_run_def)
  have k1: "\<And>pv' x xs cp'. is_space x \<Longrightarrow> ms ?r2 (pv', x # xs, cp') = []"
    by (rule seq_digits_kill) (simp_all add: space_not_digit)
  have k2: "\<And>r pv' x xs cp'. is_digit x \<Longrightarrow> ms (Seq (Cls is_colon) r) (pv', x # xs, cp') = []"
    using colon_not_digit by auto
  from ws h0 have "ms (Seq (Plus is_space) ?r2) (pv, ws @ (h @ c # mi @ sp @ mer @ post), cp)
      = ms ?r2 (Some (last ws), h @ c # mi @ sp @ mer @ post, cp)"
    by (intro seq_plus k1) (auto simp: digit_not_space)
  also from h c have "\<dots> = ms (Seq (Cls is_colon) ?r3) (lastopt (Some (last ws)) h, c # mi @ sp @ mer @ post, cp)"
    by (intro seq_digits k2) (auto simp: digit_run_def colon_not_digit)
  also from c have "\<dots> = ms ?r3 (Some c, mi @ (sp @ mer @ post), cp)" by simp
  also from mi have "\<dots> = ms ?tail (lastopt (Some c) mi, sp @ mer @ post, cp)"
    by (intro seq_exact) (auto simp: digit_run_def)
  finally have "ms (Seq (Plus is_space) ?r2) (pv, t @ post, cp)
      = ms ?tail (lastopt (Some c) mi, sp @ mer @ post, cp)"
    by (simp add: t)
  with tail_greedy[OF sp mer, of "lastopt (Some c) mi" post cp] show ?thesis
    by (auto simp del: ms.simps)
qed

lemma accepted_parts:
  assumes "accepted_date_time w"
  obtains d a mo b y t where "w = d @ a # mo @ b # y @ t"
    "digit_run 1 2 d" "is_sep a" "digit_run 1 2 mo" "is_sep b" "digit_run 2 4 y"
    "t = [] \<or> accepted_time t"
proof -
  from assms consider "date_segment w" | d' t where "w = d' @ t" "date_segment d'" "accepted_time t"
    by (auto simp: accepted_date_time_def)
  then show ?thesis
  proof cases
    case 1
    then obtain d a mo b y where "w = d @ a # mo @ b # y @ []"
      "digit_run 1 2 d" "is_sep a" "digit_run 1 2 mo" "is_sep b" "digit_run 2 4 y"
      by (auto simp: date_segment_def)
    then show ?thesis by (intro that[of d a mo b y "[]"]) simp_all
  next
    case 2
    from 2(2) obtain d a mo b y where "d' = d @ a # mo @ b # y"
      "digit_run 1 2 d" "is_sep a" "digit_run 1 2 mo" "is_sep b" "digit_run 2 4 y"
      by (auto simp: date_segment_def)
    with 2(1,3) show ?thesis by (intro that[of d a mo b y t]) simp_all
  qed
qed

lemma accepted_time_starts: "accepted_time t \<Longrightarrow> t \<noteq> [] \<and> \<not> is_digit (hd t)"
  by (auto simp: accepted_time_def space_not_digit hd_append)

lemma dateTime_head_longest:
  assumes "accepted_date_time w"
  shows "\<exists>pv' rs' cp' others. ms dateTimeRegex (pv, w @ post, cp) = (pv', rs', cp') # others
           \<and> length rs' \<le> length post"
proof -
  let ?core = "Seq (Rep 1 2 D) (Seq (Cls is_sep) (Seq (Rep 1 2 D) (Seq (Cls is_sep) (Rep 2 4 D))))"
  let ?tp = "Seq (Plus is_space) (Seq (Rep 1 2 D) (Seq (Cls is_colon)
            (Seq (Rep 2 2 D) (Seq (Opt (Cls is_space)) (Opt (Group 3 meridiem))))))"
  from assms obtain d a mo b y t where w: "w = d @ a # mo @ b # y @ t"
    and dt: "digit_run 1 2 d" "is_sep a" "digit_run 1 2 mo" "is_sep b" "digit_run 2 4 y"
    and t: "t = [] \<or> accepted_time t"
    by (rule accepted_parts)
  from extend_year[OF dt(5), of "t @ post"] obtain Y R where
    YR: "y @ t @ post = Y @ R" "digit_run 2 4 Y" "length y \<le> length Y"
      "length Y = 4 \<or> R = [] \<or> \<not> is_digit (hd R)"
      "t @ post = [] \<or> \<not> is_digit (hd (t @ post)) \<longrightarrow> Y = y \<and> R = t @ post"
    by blast
  have S: "w @ post = d @ a # mo @ b # Y @ R" using w YR(1) by simp
  from date_core_head[OF dt(1-4) YR(2,4), of pv cp] obtain pv1 others1 where
    core: "ms ?core (pv, w @ post, cp) = (pv1, R, cp) # others1"
    unfolding S by blast
  define cp1 where "cp1 = (1::nat, take (length (w @ post) - length R) (w @ post)) # cp"
  from core obtain others2 where
    g1: "ms (Group 1 ?core) (pv, w @ post, cp) = (pv1, R, cp1) # others2"
    by (simp add: cp1_def)
  have all: "ms dateTimeRegex (pv, w @ post, cp)
      = ms (Group 2 ?tp) (pv1, R, cp1) @ [(pv1, R, cp1)]
        @ concat (map (ms (Opt (Group 2 ?tp))) others2)"
    unfolding dateTimeRegex_def ms.simps(2) g1 by (simp add: ms_Opt del: ms.simps)
  show ?thesis
  proof (cases "t = []")
    case True
    from YR(1) have "length (y @ t @ post) = length (Y @ R)" by simp
    with True YR(3) have R: "length R \<le> length post" by simp
    show ?thesis
    proof (cases "ms (Group 2 ?tp) (pv1, R, cp1)")
      case Nil
      with all R show ?thesis by (simp del: ms.simps)
    next
      case (Cons st others)
      obtain pv' rs' cp' where st: "st = (pv', rs', cp')" by (cases st)
      from ms_shorter[OF Cons[unfolded st]] R have "length rs' \<le> length post" by simp
      with all Cons st show ?thesis by (simp del: ms.simps)
    qed
  next
    case False
    with t have ts: "accepted_time t" by simp
    from accepted_time_starts[OF ts] have "\<not> is_digit (hd (t @ post))" by simp
    with YR(5) have R: "R = t @ post" by simp
    from time_part_greedy[OF ts, of pv1 post cp1] obtain pv' rs' cp' others where
      "ms ?tp (pv1, t @ post, cp1) = (pv', rs', cp') # others" "length rs' \<le> length post"
      by blast
    then obtain cp'' others' where
      "ms (Group 2 ?tp) (pv1, R, cp1) = (pv', rs', cp'') # others'" "length rs' \<le> length post"
      unfolding R by simp
    with all show ?thesis by (simp del: ms.simps)
  qed
qed

lemma match_dateTime_longest:
  assumes "match dateTimeRegex s = Some m" "s = before m @ w @ post" "accepted_date_time w"
  shows "length w \<le> length (whole m)"
proof -
  from match_Some(3)[OF assms(1)] obtain pv others where
    1: "ms dateTimeRegex (last_opt (before m), whole m @ after m, []) = (pv, after m, groups m) # others"
    by blast
  from match_Some(1)[OF assms(1)] assms(2) have 2: "whole m @ after m = w @ post" by simp
  from dateTime_head_longest[OF assms(3), of "last_opt (before m)" post "[]"] 1
  have "length (after m) \<le> length post" unfolding 2 by auto
  moreover from 2 have "length (whole m @ after m) = length (w @ post)" by simp
  ultimately show ?thesis by simp
qed

section \<open>The standalone time pattern\<close>

lemma ms_WordB_elim:
  assumes "(pv', rs', cp') \<in> set (ms WordB (pv, rs, cp))"
  shows "boundary pv rs" "pv' = pv" "rs' = rs" "cp' = cp"
  using assms by (auto split: if_splits)

lemma ms_Seq_intro:
  "(pv1, rs1, cp1) \<in> set (ms a st) \<Longrightarrow> st'' \<in> set (ms b (pv1, rs1, cp1))
     \<Longrightarrow> st'' \<in> set (ms (Seq a b) st)"
  by auto

lemma digit_word: "is_digit c \<Longrightarrow> is_word c"
  by (auto simp: is_digit_def is_word_def)

lemma marker_last_word: "meridiem_marker mer \<Longrightarrow> mer \<noteq> [] \<and> is_word (last mer)"
  by (auto simp: meridiem_marker_def ci_def is_word_def)

lemma boundary_before_digit:
  "is_digit x \<Longrightarrow> boundary (last_opt pre) (x # rest) \<longleftrightarrow> pre = [] \<or> \<not> is_word (last pre)"
  by (auto simp: boundary_def last_opt_def digit_word)

lemma boundary_after_word:
  "is_word x \<Longrightarrow> boundary (Some x) post \<longleftrightarrow> post = [] \<or> \<not> is_word (hd post)"
  by (cases post) (auto simp: boundary_def)

lemma timeOnly_caps:
  assumes "(pv', rs', cp') \<in> set (ms timeRegex (pv, rs, cp))"
  obtains h c mi sp mer where "rs = h @ c # mi @ sp @ mer @ rs'"
    "digit_run 1 2 h" "is_colon c" "digit_run 2 2 mi"
    "sp = [] \<or> (\<exists>x. sp = [x] \<and> is_space x)" "meridiem_marker mer"
    "boundary pv rs" "boundary (Some (last mer)) rs'"
proof -
  from assms[unfolded timeRegex_def] obtain pv0 rs0 cp0 where
    0: "(pv0, rs0, cp0) \<in> set (ms WordB (pv, rs, cp))" and
    r0: "(pv', rs', cp') \<in> set (ms (Seq (Rep 1 2 D) (Seq (Cls is_colon) (Seq (Rep 2 2 D)
       (Seq (Opt (Cls is_space)) (Seq (Group 1 meridiem) WordB))))) (pv0, rs0, cp0))"
    by (rule ms_Seq_elim)
  from r0 obtain pv1 rs1 cp1 where
    1: "(pv1, rs1, cp1) \<in> set (ms (Rep 1 2 D) (pv0, rs0, cp0))" and
    r1: "(pv', rs', cp') \<in> set (ms (Seq (Cls is_colon) (Seq (Rep 2 2 D)
       (Seq (Opt (Cls is_space)) (Seq (Group 1 meridiem) WordB)))) (pv1, rs1, cp1))"
    by (rule ms_Seq_elim)
  from r1 obtain pv2 rs2 cp2 where
    2: "(pv2, rs2, cp2) \<in> set (ms (Cls is_colon) (pv1, rs1, cp1))" and
    r2: "(pv', rs', cp') \<in> set (ms (Seq (Rep 2 2 D)
       (Seq (Opt (Cls is_space)) (Seq (Group 1 meridiem) WordB))) (pv2, rs2, cp2))"
    by (rule ms_Seq_elim)
  from r2 obtain pv3 rs3 cp3 where
    3: "(pv3, rs3, cp3) \<in> set (ms (Rep 2 2 D) (pv2, rs2, cp2))" and
    r3: "(pv', rs', cp') \<in> set (ms (Seq (Opt (Cls is_space)) (Seq (Group 1 meridiem) WordB))
       (pv3, rs3, cp3))"
    by (rule ms_Seq_elim)
  from r3 obtain pv4 rs4 cp4 where
    4: "(pv4, rs4, cp4) \<in> set (ms (Opt (Cls is_space)) (pv3, rs3, cp3))" and
    r4: "(pv', rs', cp') \<in> set (ms (Seq (Group 1 meridiem) WordB) (pv4, rs4, cp4))"
    by (rule ms_Seq_elim)
  from r4 obtain pv5 rs5 cp5 where
    5: "(pv5, rs5, cp5) \<in> set (ms (Group 1 meridiem) (pv4, rs4, cp4))" and
    6: "(pv', rs', cp') \<in> set (ms WordB (pv5, rs5, cp5))"
    by (rule ms_Seq_elim)
  from ms_WordB_elim[OF 0] have b0: "boundary pv rs" "rs0 = rs" by simp_all
  from ms_sound[OF 1] obtain h where h: "digit_run 1 2 h" "rs0 = h @ rs1"
    by (auto simp only: lang_D)
  from 2 obtain c where c: "is_colon c" "rs1 = c # rs2" by (elim ms_Cls_elim)
  from ms_sound[OF 3] obtain mi where mi: "digit_run 2 2 mi" "rs2 = mi @ rs3"
    by (auto simp only: lang_D)
  from 4 obtain sp where sp: "sp = [] \<or> (\<exists>x. sp = [x] \<and> is_space x)" "rs3 = sp @ rs4"
  proof (cases rule: ms_Opt_elim)
    case 1
    then show ?thesis by (intro that[of "[]"]) simp_all
  next
    case 2
    then obtain x where "rs3 = x # rs4" "is_space x" by (elim ms_Cls_elim)
    then show ?thesis by (intro that[of "[x]"]) simp_all
  qed
  from ms_sound[OF 5] obtain mer where mer: "meridiem_marker mer" "rs4 = mer @ rs5"
    "pv5 = lastopt pv4 mer"
    by (auto simp only: lang_Group lang_meridiem)
  from marker_last_word[OF mer(1)] mer(3) have pv5: "pv5 = Some (last mer)"
    by (simp add: lastopt_def)
  from ms_WordB_elim[OF 6] pv5 have b1: "boundary (Some (last mer)) rs'" "rs' = rs5" by simp_all
  show ?thesis
    using b0 h c mi sp mer b1 by (intro that[of h c mi sp mer]) simp_all
qed

lemma ms_WordB_intro: "boundary pv rs \<Longrightarrow> (pv, rs, cp) \<in> set (ms WordB (pv, rs, cp))"
  by simp

lemma timeOnly_complete:
  assumes h: "digit_run 1 2 h" and c: "is_colon c" and mi: "digit_run 2 2 mi"
    and sp: "sp = [] \<or> (\<exists>x. sp = [x] \<and> is_space x)" and mer: "meridiem_marker mer"
    and b0: "boundary pv (h @ c # mi @ sp @ mer @ post)" and b1: "boundary (Some (last mer)) post"
  shows "ms timeRegex (pv, h @ c # mi @ sp @ mer @ post, cp) \<noteq> []"
proof -
  let ?e = "Seq (Group 1 meridiem) WordB"
  let ?d = "Seq (Opt (Cls is_space)) ?e"
  let ?c = "Seq (Rep 2 2 D) ?d"
  let ?b = "Seq (Cls is_colon) ?c"
  let ?a = "Seq (Rep 1 2 D) ?b"
  from mer have ml: "mer \<in> lang (Group 1 meridiem)" by (simp only: lang_Group lang_meridiem)
  from marker_last_word[OF mer] have lm: "\<And>pv. lastopt pv mer = Some (last mer)"
    by (simp add: lastopt_def)
  from h have hl: "h \<in> lang (Rep 1 2 D)" by (simp only: lang_D)
  from mi have mil: "mi \<in> lang (Rep 2 2 D)" by (simp only: lang_D)
  from sp have spl: "sp \<in> lang (Opt (Cls is_space))" by (auto simp only: lang_Opt lang_Cls)
  from ms_complete[OF _ hl, of pv "c # mi @ sp @ mer @ post" cp] obtain cp1 where
    1: "(lastopt pv h, c # mi @ sp @ mer @ post, cp1) \<in> set (ms (Rep 1 2 D) (pv, h @ c # mi @ sp @ mer @ post, cp))"
    by auto
  from c have
    2: "(Some c, mi @ sp @ mer @ post, cp1) \<in> set (ms (Cls is_colon) (lastopt pv h, c # mi @ sp @ mer @ post, cp1))"
    by simp
  from ms_complete[OF _ mil, of "Some c" "sp @ mer @ post" cp1] obtain cp3 where
    3: "(lastopt (Some c) mi, sp @ mer @ post, cp3) \<in> set (ms (Rep 2 2 D) (Some c, mi @ sp @ mer @ post, cp1))"
    by auto
  from ms_complete[OF _ spl, of "lastopt (Some c) mi" "mer @ post" cp3] obtain cp4 where
    4: "(lastopt (lastopt (Some c) mi) sp, mer @ post, cp4)
          \<in> set (ms (Opt (Cls is_space)) (lastopt (Some c) mi, sp @ mer @ post, cp3))"
    by auto
  have wb: "wbfree (Group 1 meridiem)" by (simp add: meridiem_def)
  from ms_complete[OF wb ml, of "lastopt (lastopt (Some c) mi) sp" post cp4] obtain cp5 where
    "(lastopt (lastopt (lastopt (Some c) mi) sp) mer, post, cp5)
          \<in> set (ms (Group 1 meridiem) (lastopt (lastopt (Some c) mi) sp, mer @ post, cp4))"
    by blast
  then have 5: "(Some (last mer), post, cp5)
          \<in> set (ms (Group 1 meridiem) (lastopt (lastopt (Some c) mi) sp, mer @ post, cp4))"
    by (simp only: lm)
  from b1 have 6: "(Some (last mer), post, cp5) \<in> set (ms WordB (Some (last mer), post, cp5))"
    by (rule ms_WordB_intro)
  from b0 have 0: "(pv, h @ c # mi @ sp @ mer @ post, cp) \<in> set (ms WordB (pv, h @ c # mi @ sp @ mer @ post, cp))"
    by (rule ms_WordB_intro)
  note e = ms_Seq_intro[OF 5 6]
  note d = ms_Seq_intro[OF 4 e]
  note c' = ms_Seq_intro[OF 3 d]
  note b = ms_Seq_intro[OF 2 c']
  note a = ms_Seq_intro[OF 1 b]
  note all = ms_Seq_intro[OF 0 a]
  then have "(Some (last mer), post, cp5) \<in> set (ms timeRegex (pv, h @ c # mi @ sp @ mer @ post, cp))"
    unfolding timeRegex_def .
  then show ?thesis by auto
qed

lemma match_timeRegex_iff: "match timeRegex s \<noteq> None \<longleftrightarrow> standalone_time s"
proof
  assume "match timeRegex s \<noteq> None"
  then obtain m where m: "match timeRegex s = Some m" by auto
  from match_Some(3)[OF m] obtain pv others where
    "ms timeRegex (last_opt (before m), whole m @ after m, []) = (pv, after m, groups m) # others"
    by blast
  then have "(pv, after m, groups m) \<in> set (ms timeRegex (last_opt (before m), whole m @ after m, []))"
    by simp
  then obtain h c mi sp mer where *: "whole m @ after m = h @ c # mi @ sp @ mer @ after m"
    "digit_run 1 2 h" "is_colon c" "digit_run 2 2 mi"
    "sp = [] \<or> (\<exists>x. sp = [x] \<and> is_space x)" "meridiem_marker mer"
    "boundary (last_opt (before m)) (whole m @ after m)" "boundary (Some (last mer)) (after m)"
    by (rule timeOnly_caps)
  from *(2) obtain h0 h' where h0: "h = h0 # h'" "is_digit h0"
    by (cases h) (auto simp: digit_run_def)
  from *(7) have b0: "before m = [] \<or> \<not> is_word (last (before m))"
    unfolding *(1) h0(1) using boundary_before_digit[OF h0(2)] by simp
  from *(8) marker_last_word[OF *(6)] have b1: "after m = [] \<or> \<not> is_word (hd (after m))"
    using boundary_after_word by simp
  from match_Some(1)[OF m] *(1) have "s = before m @ h @ c # mi @ sp @ mer @ after m" by simp
  with *(2-6) b0 b1 show "standalone_time s"
    unfolding standalone_time_def by blast
next
  assume "standalone_time s"
  then obtain pre h c mi sp mer post where s: "s = pre @ h @ c # mi @ sp @ mer @ post"
    and *: "digit_run 1 2 h" "is_colon c" "digit_run 2 2 mi"
      "sp = [] \<or> (\<exists>x. sp = [x] \<and> is_space x)" "meridiem_marker mer"
    and b: "pre = [] \<or> \<not> is_word (last pre)" "post = [] \<or> \<not> is_word (hd post)"
    unfolding standalone_time_def by blast
  from *(1) obtain h0 h' where h0: "h = h0 # h'" "is_digit h0"
    by (cases h) (auto simp: digit_run_def)
  from b(1) have b0: "boundary (last_opt pre) (h @ c # mi @ sp @ mer @ post)"
    unfolding h0(1) using boundary_before_digit[OF h0(2)] by simp
  from b(2) marker_last_word[OF *(5)] have b1: "boundary (Some (last mer)) post"
    using boundary_after_word by simp
  from timeOnly_complete[OF * b0 b1, of "[]"]
  have ne: "ms timeRegex (last_opt pre, h @ c # mi @ sp @ mer @ post, []) \<noteq> []" .
  show "match timeRegex s \<noteq> None"
  proof
    assume "match timeRegex s = None"
    then have "scan timeRegex [] s = None" by (simp add: match_def)
    from scan_None[OF this s] ne show False by simp
  qed
qed

lemma extractTimeOnly_iff: "extractTimeOnly s \<noteq> None \<longleftrightarrow> standalone_time s"
proof -
  have "whole m \<noteq> []" if "match timeRegex s = Some m" for m
  proof -
    from match_Some(3)[OF that] obtain pv others where
      "ms timeRegex (last_opt (before m), whole m @ after m, []) = (pv, after m, groups m) # others"
      by blast
    then have "(pv, after m, groups m) \<in> set (ms timeRegex (last_opt (before m), whole m @ after m, []))"
      by simp
    then obtain h c mi sp mer where "whole m @ after m = h @ c # mi @ sp @ mer @ after m"
      by (rule timeOnly_caps)
    then show ?thesis by auto
  qed
  then have "extractTimeOnly s \<noteq> None \<longleftrightarrow> match timeRegex s \<noteq> None"
    by (auto simp: extractTimeOnly_def split: option.splits)
  then show ?thesis by (simp only: match_timeRegex_iff)
qed

section \<open>The shape of the specification and the accepted shape\<close>

lemma time_segment_accepted: "time_segment t \<Longrightarrow> accepted_time t"
proof -
  assume "time_segment t"
  then obtain ws h c mi sp mer where t: "t = ws @ (h @ c # mi) @ sp @ mer"
    and *: "ws \<noteq> []" "\<forall>x\<in>set ws. is_space x" "digit_run 1 2 h" "is_colon c" "digit_run 2 2 mi"
    and m: "(sp = [] \<and> mer = []) \<or> ((sp = [] \<or> (\<exists>x. sp = [x] \<and> is_space x)) \<and> meridiem_marker mer)"
    unfolding time_segment_def clock_time_def by blast
  from m have "sp = [] \<or> (\<exists>x. sp = [x] \<and> is_space x)" "mer = [] \<or> meridiem_marker mer"
    by blast+
  with t * have "t = ws @ h @ c # mi @ sp @ mer \<and> ws \<noteq> [] \<and> (\<forall>x\<in>set ws. is_space x)
      \<and> digit_run 1 2 h \<and> is_colon c \<and> digit_run 2 2 mi
      \<and> (sp = [] \<or> (\<exists>x. sp = [x] \<and> is_space x)) \<and> (mer = [] \<or> meridiem_marker mer)"
    by simp
  then show ?thesis unfolding accepted_time_def by blast
qed

lemma date_time_accepted: "date_time w \<Longrightarrow> accepted_date_time w"
  unfolding date_time_def accepted_date_time_def using time_segment_accepted by blast

lemma accepted_time_cases:
  assumes "accepted_time t"
  shows "time_segment t \<or> (\<exists>u x. t = u @ [x] \<and> time_segment u \<and> is_space x)"
proof -
  from assms obtain ws h c mi sp mer where t: "t = ws @ h @ c # mi @ sp @ mer"
    and *: "ws \<noteq> []" "\<forall>x\<in>set ws. is_space x"
    and ck: "digit_run 1 2 h" "is_colon c" "digit_run 2 2 mi"
    and sp: "sp = [] \<or> (\<exists>x. sp = [x] \<and> is_space x)" and mer: "mer = [] \<or> meridiem_marker mer"
    unfolding accepted_time_def by blast
  from ck have ct: "clock_time (h @ c # mi)" unfolding clock_time_def by blast
  show ?thesis
  proof (cases "mer = [] \<and> sp \<noteq> []")
    case True
    with sp obtain x where x: "sp = [x]" "is_space x" by blast
    have "time_segment (ws @ (h @ c # mi) @ [] @ [])"
      unfolding time_segment_def using * ct by blast
    moreover from t True x have "t = (ws @ (h @ c # mi) @ [] @ []) @ [x]" by simp
    ultimately show ?thesis using x(2) by blast
  next
    case False
    with sp mer have "(sp = [] \<and> mer = [])
           \<or> ((sp = [] \<or> (\<exists>x. sp = [x] \<and> is_space x)) \<and> meridiem_marker mer)" by blast
    moreover from t have "t = ws @ (h @ c # mi) @ sp @ mer" by simp
    ultimately have "time_segment t" unfolding time_segment_def using * ct by blast
    then show ?thesis ..
  qed
qed

lemma accepted_cases:
  assumes "accepted_date_time m"
  shows "date_time m \<or> (\<exists>w x. m = w @ [x] \<and> date_time w \<and> is_space x)"
proof -
  from assms consider "date_segment m" | d t where "m = d @ t" "date_segment d" "accepted_time t"
    unfolding accepted_date_time_def by blast
  then show ?thesis
  proof cases
    case 1
    then show ?thesis by (simp add: date_time_def)
  next
    case 2
    from accepted_time_cases[OF 2(3)] show ?thesis
    proof
      assume "time_segment t"
      with 2 have "date_time m" unfolding date_time_def by blast
      then show ?thesis ..
    next
      assume "\<exists>u x. t = u @ [x] \<and> time_segment u \<and> is_space x"
      then obtain u x where u: "t = u @ [x]" "time_segment u" "is_space x" by blast
      with 2 have "date_time (d @ u)" unfolding date_time_def by blast
      moreover from 2(1) u(1) have "m = (d @ u) @ [x]" by simp
      ultimately show ?thesis using u(3) by blast
    qed
  qed
qed

lemma accepted_date_time_iff:
  "accepted_date_time m \<longleftrightarrow>
     date_time m
     \<or> (\<exists>d ws t x. m = d @ ws @ t @ [x] \<and> date_segment d \<and> ws \<noteq> []
           \<and> (\<forall>c\<in>set ws. is_space c) \<and> clock_time t \<and> is_space x)"
proof
  assume "accepted_date_time m"
  then consider "date_segment m" | d t where "m = d @ t" "date_segment d" "accepted_time t"
    unfolding accepted_date_time_def by blast
  then show "date_time m
     \<or> (\<exists>d ws t x. m = d @ ws @ t @ [x] \<and> date_segment d \<and> ws \<noteq> []
           \<and> (\<forall>c\<in>set ws. is_space c) \<and> clock_time t \<and> is_space x)"
  proof cases
    case 1
    then show ?thesis by (simp add: date_time_def)
  next
    case 2
    from 2(3) obtain ws h c mi sp mer where t: "t = ws @ h @ c # mi @ sp @ mer"
      and *: "ws \<noteq> []" "\<forall>x\<in>set ws. is_space x"
      and ck: "digit_run 1 2 h" "is_colon c" "digit_run 2 2 mi"
      and sp: "sp = [] \<or> (\<exists>x. sp = [x] \<and> is_space x)" and mer: "mer = [] \<or> meridiem_marker mer"
      unfolding accepted_time_def by blast
    from ck have ct: "clock_time (h @ c # mi)" unfolding clock_time_def by blast
    show ?thesis
    proof (cases "mer = [] \<and> sp \<noteq> []")
      case True
      with sp obtain x where x: "sp = [x]" "is_space x" by blast
      from 2(1) t True x have "m = d @ ws @ (h @ c # mi) @ [x]" by simp
      with 2(2) * ct x(2) show ?thesis by blast
    next
      case False
      have "time_segment t"
      proof -
        from False sp mer have "(sp = [] \<and> mer = [])
           \<or> ((sp = [] \<or> (\<exists>x. sp = [x] \<and> is_space x)) \<and> meridiem_marker mer)" by blast
        moreover from t have "t = ws @ (h @ c # mi) @ sp @ mer" by simp
        ultimately show ?thesis unfolding time_segment_def using * ct by blast
      qed
      with 2(1,2) have "date_time m" unfolding date_time_def by blast
      then show ?thesis ..
    qed
  qed
next
  assume "date_time m
     \<or> (\<exists>d ws t x. m = d @ ws @ t @ [x] \<and> date_segment d \<and> ws \<noteq> []
           \<and> (\<forall>c\<in>set ws. is_space c) \<and> clock_time t \<and> is_space x)"
  then show "accepted_date_time m"
  proof
    assume "date_time m"
    then show ?thesis by (rule date_time_accepted)
  next
    assume "\<exists>d ws t x. m = d @ ws @ t @ [x] \<and> date_segment d \<and> ws \<noteq> []
           \<and> (\<forall>c\<in>set ws. is_space c) \<and> clock_time t \<and> is_space x"
    then obtain d ws t x where m: "m = d @ ws @ t @ [x]" and d: "date_segment d"
      and ws: "ws \<noteq> []" "\<forall>c\<in>set ws. is_space c" and t: "clock_time t" and x: "is_space x"
      by blast
    from t obtain h c mi where ck: "t = h @ c # mi" "digit_run 1 2 h" "is_colon c" "digit_run 2 2 mi"
      unfolding clock_time_def by blast
    have "accepted_time (ws @ h @ c # mi @ [x] @ [])"
      unfolding accepted_time_def using ws ck(2-4) x by blast
    moreover from m ck(1) have "m = d @ (ws @ h @ c # mi @ [x] @ [])" by simp
    ultimately show ?thesis unfolding accepted_date_time_def using d by blast
  qed
qed

lemma occurs_date_time_iff: "occurs date_time s \<longleftrightarrow> occurs accepted_date_time s"
proof
  assume "occurs date_time s"
  then show "occurs accepted_date_time s"
    unfolding occurs_def using date_time_accepted by blast
next
  assume "occurs accepted_date_time s"
  then obtain pre w post where s: "s = pre @ w @ post" and w: "accepted_date_time w"
    unfolding occurs_def by blast
  from w obtain d t where dt: "w = d @ t" "date_segment d"
    unfolding accepted_date_time_def by (metis append_Nil2)
  then have "date_time d" by (simp add: date_time_def)
  moreover from s dt(1) have "s = pre @ d @ (t @ post)" by simp
  ultimately show "occurs date_time s" unfolding occurs_def by blast
qed

lemma m_not_space: "ci 77 c \<Longrightarrow> \<not> is_space c"
  by (auto simp: ci_def is_space_def)

lemma date_segment_ends: "date_segment w \<Longrightarrow> w \<noteq> [] \<and> is_digit (last w)"
  by (auto simp: date_segment_def digit_run_def)

lemma clock_time_ends: "clock_time w \<Longrightarrow> w \<noteq> [] \<and> is_digit (last w)"
  by (auto simp: clock_time_def digit_run_def)

lemma time_segment_ends:
  assumes "time_segment t"
  shows "t \<noteq> [] \<and> \<not> is_space (last t)"
proof -
  from assms obtain ws ct sp mer where t: "t = ws @ ct @ sp @ mer" and ct: "clock_time ct"
    and m: "(sp = [] \<and> mer = []) \<or> meridiem_marker mer"
    unfolding time_segment_def by blast
  from m show ?thesis
  proof
    assume "sp = [] \<and> mer = []"
    with t clock_time_ends[OF ct] show ?thesis by (simp add: digit_not_space)
  next
    assume "meridiem_marker mer"
    then obtain c1 c2 where "mer = [c1, c2]" "ci 77 c2" by (auto simp: meridiem_marker_def)
    with t show ?thesis by (simp add: m_not_space)
  qed
qed

lemma date_time_ends: "date_time w \<Longrightarrow> w \<noteq> [] \<and> \<not> is_space (last w)"
proof -
  assume "date_time w"
  then consider "date_segment w" | d t where "w = d @ t" "time_segment t"
    unfolding date_time_def by blast
  then show ?thesis
  proof cases
    case 1
    from date_segment_ends[OF 1] show ?thesis by (simp add: digit_not_space)
  next
    case 2
    from time_segment_ends[OF 2(2)] 2(1) show ?thesis by simp
  qed
qed

lemma pay_shape: "date_time (js ''25/12/2025 6:30'')"
proof -
  have "date_segment (js ''25'' @ 47 # js ''12'' @ 47 # js ''2025'')"
    unfolding date_segment_def
    by (intro exI conjI, rule refl)
       (simp_all add: digit_run_def js_def is_digit_def is_sep_def)
  moreover have ct: "clock_time (js ''6'' @ 58 # js ''30'')"
    unfolding clock_time_def
    by (intro exI conjI, rule refl)
       (simp_all add: digit_run_def js_def is_digit_def is_colon_def)
  have "time_segment ([32] @ (js ''6'' @ 58 # js ''30'') @ [] @ [])"
    unfolding time_segment_def
    by (rule exI[of _ "[32]"], rule exI[of _ "js ''6'' @ 58 # js ''30''"],
        rule exI[of _ "[]"], rule exI[of _ "[]"]) (simp add: ct is_space_def)
  ultimately have "date_time ((js ''25'' @ 47 # js ''12'' @ 47 # js ''2025'')
       @ ([32] @ (js ''6'' @ 58 # js ''30'') @ [] @ []))"
    unfolding date_time_def by blast
  then show ?thesis by (simp add: js_def)
qed

lemma pay_extract:
  "extractDateTime (js ''Pay 25/12/2025 6:30 today'') = Some (js ''25/12/2025 6:30 '')"
  "removeDateTime (js ''Pay 25/12/2025 6:30 today'') = js ''Pay today''"
  by (simp_all add: ev)

lemma pay_not_shape: "\<not> date_time (js ''25/12/2025 6:30 '')"
proof
  assume "date_time (js ''25/12/2025 6:30 '')"
  from date_time_ends[OF this] show False by (simp add: js_def is_space_def)
qed

lemma match_dateTime_Some:
  assumes "match dateTimeRegex s = Some m"
  shows "s = before m @ whole m @ after m" "accepted_date_time (whole m)"
    "extractDateTime s = Some (whole m)" "removeDateTime s = trim (before m @ after m)"
    "s = pre' @ w' @ post' \<Longrightarrow> accepted_date_time w' \<Longrightarrow> length (before m) \<le> length pre'"
proof -
  show "s = before m @ whole m @ after m" by (rule match_Some(1)[OF assms])
  show dt: "accepted_date_time (whole m)" using match_Some(2)[OF assms] by (simp only: lang_dateTimeRegex)
  from accepted_nonempty[OF dt] assms show "extractDateTime s = Some (whole m)"
    by (simp add: extractDateTime_def)
  from assms show "removeDateTime s = trim (before m @ after m)"
    by (simp add: removeDateTime_def)
  show "length (before m) \<le> length pre'" if "s = pre' @ w' @ post'" "accepted_date_time w'"
    using match_Some(4)[OF assms wbfree_patterns(1) that(1)] that(2)
    by (simp only: lang_dateTimeRegex)
qed

lemma match_dateTime_None:
  "match dateTimeRegex s = None \<longleftrightarrow> \<not> occurs accepted_date_time s"
  using match_None[OF wbfree_patterns(1), of s]
  by (simp only: lang_dateTimeRegex occurs_def)

text \<open>
  Claim C7, amended. If a string has a substring of the date shape (a date segment,
  optionally followed by a time segment), \<open>extractDateTime\<close> returns the accepted
  substring that starts at the leftmost position where one starts and is the longest
  accepted one starting there. What it returns is of the date shape, or is a string of
  the date shape followed by one white-space character: the white space after the
  minutes belongs to the match also when no meridiem marker follows it.
  \<open>removeDateTime\<close> returns the input with the returned substring cut out and the result
  trimmed. If the string has no substring of the date shape, \<open>extractDateTime\<close> returns
  nothing and \<open>removeDateTime\<close> only trims.
\<close>

theorem extract_remove_date_time:
  "(occurs date_time s \<longrightarrow>
      (\<exists>pre m post. s = pre @ m @ post \<and> accepted_date_time m
         \<and> (date_time m \<or> (\<exists>w x. m = w @ [x] \<and> date_time w \<and> is_space x))
         \<and> extractDateTime s = Some m \<and> removeDateTime s = trim (pre @ post)
         \<and> (\<forall>pre' w post'. s = pre' @ w @ post' \<and> accepted_date_time w
               \<longrightarrow> length pre \<le> length pre')
         \<and> (\<forall>w post'. s = pre @ w @ post' \<and> accepted_date_time w
               \<longrightarrow> length w \<le> length m)))
   \<and> (\<not> occurs date_time s \<longrightarrow> extractDateTime s = None \<and> removeDateTime s = trim s)"
proof (intro conjI impI)
  assume "occurs date_time s"
  then obtain m where m: "match dateTimeRegex s = Some m"
    using match_dateTime_None[of s] occurs_date_time_iff[of s]
    by (cases "match dateTimeRegex s") auto
  show "\<exists>pre m post. s = pre @ m @ post \<and> accepted_date_time m
         \<and> (date_time m \<or> (\<exists>w x. m = w @ [x] \<and> date_time w \<and> is_space x))
         \<and> extractDateTime s = Some m \<and> removeDateTime s = trim (pre @ post)
         \<and> (\<forall>pre' w post'. s = pre' @ w @ post' \<and> accepted_date_time w
               \<longrightarrow> length pre \<le> length pre')
         \<and> (\<forall>w post'. s = pre @ w @ post' \<and> accepted_date_time w
               \<longrightarrow> length w \<le> length m)"
  proof -
    have 1: "s = before m @ whole m @ after m" by (rule match_dateTime_Some(1)[OF m])
    have 2: "accepted_date_time (whole m)" by (rule match_dateTime_Some(2)[OF m])
    have sh: "date_time (whole m)
        \<or> (\<exists>w x. whole m = w @ [x] \<and> date_time w \<and> is_space x)"
      by (rule accepted_cases[OF 2])
    have 3: "extractDateTime s = Some (whole m)" by (rule match_dateTime_Some(3)[OF m])
    have 4: "removeDateTime s = trim (before m @ after m)" by (rule match_dateTime_Some(4)[OF m])
    have 5: "\<forall>pre' w post'. s = pre' @ w @ post' \<and> accepted_date_time w
               \<longrightarrow> length (before m) \<le> length pre'"
      by (intro allI impI, elim conjE) (rule match_dateTime_Some(5)[OF m])
    have 6: "\<forall>w post'. s = before m @ w @ post' \<and> accepted_date_time w
               \<longrightarrow> length w \<le> length (whole m)"
      by (intro allI impI, elim conjE) (rule match_dateTime_longest[OF m])
    show ?thesis
      by (rule exI[of _ "before m"], rule exI[of _ "whole m"], rule exI[of _ "after m"])
         (intro conjI 1 2 sh 3 4 5 6)
  qed
next
  assume "\<not> occurs date_time s"
  then have "match dateTimeRegex s = None"
    by (simp add: match_dateTime_None occurs_date_time_iff)
  then show "extractDateTime s = None" "removeDateTime s = trim s"
    by (simp_all add: extractDateTime_def removeDateTime_def)
qed

theorem extract_remove_date_time_witness:
  "occurs date_time (js ''Buy milk 25/12/2025 6:30 PM'')
   \<and> (\<exists>pre m post. js ''Buy milk 25/12/2025 6:30 PM'' = pre @ m @ post \<and> accepted_date_time m
         \<and> (date_time m \<or> (\<exists>w x. m = w @ [x] \<and> date_time w \<and> is_space x))
         \<and> extractDateTime (js ''Buy milk 25/12/2025 6:30 PM'') = Some m
         \<and> removeDateTime (js ''Buy milk 25/12/2025 6:30 PM'') = trim (pre @ post)
         \<and> (\<forall>pre' w post'. js ''Buy milk 25/12/2025 6:30 PM'' = pre' @ w @ post'
                 \<and> accepted_date_time w
               \<longrightarrow> length pre \<le> length pre')
         \<and> (\<forall>w post'. js ''Buy milk 25/12/2025 6:30 PM'' = pre @ w @ post'
                 \<and> accepted_date_time w
               \<longrightarrow> length w \<le> length m))
   \<and> extractDateTime (js ''Buy milk 25/12/2025 6:30 PM'') = Some (js ''25/12/2025 6:30 PM'')
   \<and> removeDateTime (js ''Buy milk 25/12/2025 6:30 PM'') = js ''Buy milk''
   \<and> \<not> occurs date_time (js ''Call mom 9:00 AM'')
   \<and> extractDateTime (js ''Call mom 9:00 AM'') = None
   \<and> removeDateTime (js ''Call mom 9:00 AM'') = trim (js ''Call mom 9:00 AM'')"
proof -
  have "match dateTimeRegex (js ''Buy milk 25/12/2025 6:30 PM'') \<noteq> None"
    using milk_extract by (auto simp: extractDateTime_def split: option.splits)
  then have 1: "occurs date_time (js ''Buy milk 25/12/2025 6:30 PM'')"
    by (simp add: match_dateTime_None occurs_date_time_iff)
  have "match dateTimeRegex (js ''Call mom 9:00 AM'') = None"
    using call_mom_date match_dateTime_Some(3)[of "js ''Call mom 9:00 AM''"]
    by (cases "match dateTimeRegex (js ''Call mom 9:00 AM'')") auto
  then have 2: "\<not> occurs date_time (js ''Call mom 9:00 AM'')"
    by (simp add: match_dateTime_None occurs_date_time_iff)
  note a = extract_remove_date_time[of "js ''Buy milk 25/12/2025 6:30 PM''",
      THEN conjunct1, rule_format, OF 1]
  note b = extract_remove_date_time[of "js ''Call mom 9:00 AM''",
      THEN conjunct2, rule_format, OF 2]
  show ?thesis
    by (rule conjI[OF 1], rule conjI[OF a], rule conjI[OF milk_extract],
        rule conjI[OF milk_remove], rule conjI[OF 2], rule b)
qed

text \<open>
  The claim as stated fails where the minutes are followed by white space and no
  meridiem marker: the input below has the substring \<open>25/12/2025 6:30\<close> of the date shape,
  and \<open>extractDateTime\<close> returns it with the space after it, which is not of that shape;
  \<open>removeDateTime\<close> then leaves one space between the words where cutting out the
  substring of the date shape would leave two.
\<close>

theorem extract_remove_date_time_counterexample:
  "js ''Pay 25/12/2025 6:30 today'' = js ''Pay '' @ js ''25/12/2025 6:30'' @ js '' today''
   \<and> date_time (js ''25/12/2025 6:30'')
   \<and> extractDateTime (js ''Pay 25/12/2025 6:30 today'') = Some (js ''25/12/2025 6:30 '')
   \<and> \<not> date_time (js ''25/12/2025 6:30 '')
   \<and> removeDateTime (js ''Pay 25/12/2025 6:30 today'') = js ''Pay today''
   \<and> trim (js ''Pay '' @ js ''today'') = js ''Pay today''
   \<and> trim (js ''Pay '' @ js '' today'') = js ''Pay  today''"
proof -
  have 1: "js ''Pay 25/12/2025 6:30 today'' = js ''Pay '' @ js ''25/12/2025 6:30'' @ js '' today''"
    by (simp add: js_def)
  have 2: "trim (js ''Pay '' @ js ''today'') = js ''Pay today''"
    "trim (js ''Pay '' @ js '' today'') = js ''Pay  today''"
    by (simp_all add: ev)
  show ?thesis
    by (intro conjI 1 pay_shape pay_extract pay_not_shape 2)
qed

section \<open>The reminder loop\<close>

subsection \<open>One task\<close>

lemma checkDueTask_idle: "\<not> fires tv now st t \<Longrightarrow> checkDueTask h tv now st t = Returned st"
  by (auto simp: checkDueTask_def fires_def getTime_def Let_def split: option.splits jsdate.splits)

lemma checkDueTask_returns:
  assumes "returns h" "fires tv now st t"
  shows "checkDueTask h tv now st t
           = Returned \<lparr>notified = insert (task_id t) (notified st), toasts = toasts st @ [t],
                       browser = browser st @ (if granted h then [t] else [])\<rparr>"
proof -
  from assms(2) obtain y m d hh mi where p: "parseUserDate (userDate t) = Some (Date y m d hh mi)"
    and w: "- 5000 \<le> tv y m d hh mi - now" "tv y m d hh mi - now \<le> 5000"
    and n: "\<not> completed t" "task_id t \<notin> notified st"
    by (auto simp: fires_def)
  from assms(1) show ?thesis
    by (cases h)
       (simp_all add: checkDueTask_def p w n getTime_def sendNotification_def showToast_def
          returns_def granted_def)
qed

lemma checkDueTask_throws:
  assumes "\<not> returns h" "fires tv now st t"
  shows "\<exists>e. checkDueTask h tv now st t = Thrown e (st\<lparr>toasts := toasts st @ [t]\<rparr>)"
proof -
  from assms(2) obtain y m d hh mi where p: "parseUserDate (userDate t) = Some (Date y m d hh mi)"
    and w: "- 5000 \<le> tv y m d hh mi - now" "tv y m d hh mi - now \<le> 5000"
    and n: "\<not> completed t" "task_id t \<notin> notified st"
    by (auto simp: fires_def)
  from assms(1) show ?thesis
    by (cases h)
       (simp_all add: checkDueTask_def p w n getTime_def sendNotification_def showToast_def
          returns_def)
qed

lemma checkDueTask_skips:
  "completed t \<or> task_id t \<in> notified st \<Longrightarrow> checkDueTask h tv now st t = Returned st"
  by (simp add: checkDueTask_def)

lemma forEach_invariant:
  assumes "P st" and "\<And>s x. P s \<Longrightarrow> P (state_of (f s x))"
  shows "P (state_of (forEach f xs st))"
  using assms(1)
proof (induction xs arbitrary: st)
  case Nil
  then show ?case by simp
next
  case (Cons x xs)
  from assms(2)[OF Cons.prems, of x] Cons.IH show ?case
    by (cases "f st x") simp_all
qed

lemma foldl_invariant:
  assumes "P s" and "\<And>s x. P s \<Longrightarrow> P (f s x)"
  shows "P (foldl f s xs)"
  using assms(1) by (induction xs arbitrary: s) (auto intro: assms(2))

subsection \<open>On every host\<close>

text \<open>
  Whatever the host does, a task that is completed or whose id is in the fired set is
  skipped, and a session reminds only of tasks whose ids were not in the fired set
  before: what the fired set holds is never reminded of again, whatever the due date
  is edited to.
\<close>

lemma extends_refl: "extends st st"
  by (simp add: extends_def)

lemma extends_step: "extends st st' \<Longrightarrow> extends st (state_of (checkDueTask h tv now st' t))"
proof (cases "fires tv now st' t")
  case False
  assume "extends st st'"
  with checkDueTask_idle[OF False, of h] show ?thesis by simp
next
  case True
  assume e: "extends st st'"
  from True have n: "task_id t \<notin> notified st'" by (simp add: fires_def)
  from e obtain new where new: "notified st \<subseteq> notified st'" "toasts st' = toasts st @ new"
    "\<forall>x\<in>set new. task_id x \<notin> notified st"
    unfolding extends_def by blast
  from new(1) n have nt: "task_id t \<notin> notified st" by blast
  have t: "toasts st' @ [t] = toasts st @ (new @ [t])" "\<forall>x\<in>set (new @ [t]). task_id x \<notin> notified st"
    using new(2,3) nt by simp_all
  show ?thesis
  proof (cases "returns h")
    case True
    from checkDueTask_returns[OF True \<open>fires tv now st' t\<close>] new(1) t show ?thesis
      unfolding extends_def by auto
  next
    case False
    from checkDueTask_throws[OF False \<open>fires tv now st' t\<close>] new(1) t show ?thesis
      unfolding extends_def by auto
  qed
qed

lemma extends_tick: "extends st st' \<Longrightarrow> extends st (state_of (checkDueTasks h tv now tasks st'))"
  unfolding checkDueTasks_def by (rule forEach_invariant) (auto intro: extends_step)

lemma extends_session: "extends st (session tv ticks st)"
  unfolding session_def
  by (rule foldl_invariant) (auto intro: extends_tick extends_refl)

lemma never_again:
  "\<exists>new. toasts (session tv ticks st) = toasts st @ new
     \<and> (\<forall>t\<in>set new. task_id t \<notin> notified st)"
  using extends_session[of st tv ticks] by (simp add: extends_def)

lemma completed_example:
  "checkDueTask h sample_tv (sample_tv 2025 11 25 18 30) start done_task = Returned start"
  by (rule checkDueTask_skips) (simp add: done_task_def)

subsection \<open>Hosts on which the notification call returns\<close>

text \<open>
  While \<open>sendNotification\<close> returns, a task is reminded of exactly when the condition of
  the specification holds, and no id is reminded of twice.
\<close>

lemma returns_transition:
  assumes "returns h"
  shows "checkDueTask h tv now st t
           = Returned (if fires tv now st t
               then \<lparr>notified = insert (task_id t) (notified st), toasts = toasts st @ [t],
                      browser = browser st @ (if granted h then [t] else [])\<rparr>
               else st)"
  using checkDueTask_returns[OF assms, of tv now st t] checkDueTask_idle[of tv now st t h]
  by (cases "fires tv now st t") simp_all

lemma once_step: "returns h \<Longrightarrow> once st \<Longrightarrow> once (state_of (checkDueTask h tv now st t))"
  by (auto simp: once_def returns_transition fires_def)

lemma once_tick: "returns h \<Longrightarrow> once st \<Longrightarrow> once (state_of (checkDueTasks h tv now tasks st))"
  unfolding checkDueTasks_def by (rule forEach_invariant) (auto intro: once_step)

lemma returns_once:
  assumes "\<forall>k\<in>set ticks. returns (fst k)"
  shows "once (session tv ticks start)"
proof -
  have "once start" by (simp add: once_def start_def)
  then have "once (foldl (\<lambda>s (h, now, tasks). state_of (checkDueTasks h tv now tasks s)) st0 ticks)"
    if "once st0" for st0
    using that assms
  proof (induction ticks arbitrary: st0)
    case Nil
    then show ?case by simp
  next
    case (Cons k ks)
    obtain h now tasks where k: "k = (h, now, tasks)" by (cases k)
    with Cons.prems have "returns h" by simp
    from once_tick[OF this Cons.prems(2), of tv now tasks] Cons.IH[OF Cons.prems(1)] Cons.prems(3) k
    show ?case by simp
  qed
  from this[of start] \<open>once start\<close> show ?thesis by (simp add: session_def)
qed

lemma edited_example:
  "fires sample_tv (sample_tv 2025 11 26 18 30) start milk_edited"
  "session sample_tv
      [(Declared Denied True, sample_tv 2025 11 25 18 30, [milk]),
       (Declared Denied True, sample_tv 2025 11 26 18 30, [milk_edited])] start
     = \<lparr>notified = {7}, toasts = [milk], browser = []\<rparr>"
  by (simp_all add: fires_def session_def checkDueTasks_def checkDueTask_def sendNotification_def
      showToast_def getTime_def milk_edited_def milk_def start_def parse_milk parse_milk_edited)

subsection \<open>Hosts without the global\<close>

lemma milk_due:
  "checkDueTask Undeclared sample_tv (sample_tv 2025 11 25 18 30 + d) st milk
     = (if 7 \<in> notified st \<or> d < - 5000 \<or> 5000 < d then Returned st
        else Thrown ReferenceError (st\<lparr>toasts := toasts st @ [milk]\<rparr>))"
  by (simp add: checkDueTask_def sendNotification_def showToast_def getTime_def milk_def parse_milk)

text \<open>
  Claim C2, on a host where \<open>Notification\<close> is not declared. Two open tasks are due at the
  instant of the tick, and neither id is in the fired set, so both meet the condition of
  the transition. The first gets its in-app reminder, then \<open>sendNotification\<close> throws:
  its id is not added to the fired set, and the second task is not looked at in this
  tick.
\<close>

theorem due_task_not_fired:
  "fires sample_tv (sample_tv 2025 11 25 18 30) start milk
   \<and> fires sample_tv (sample_tv 2025 11 25 18 30) start call_task
   \<and> checkDueTask Undeclared sample_tv (sample_tv 2025 11 25 18 30) start milk
       = Thrown ReferenceError \<lparr>notified = {}, toasts = [milk], browser = []\<rparr>
   \<and> checkDueTasks Undeclared sample_tv (sample_tv 2025 11 25 18 30) [milk, call_task] start
       = Thrown ReferenceError \<lparr>notified = {}, toasts = [milk], browser = []\<rparr>
   \<and> checkDueTasks (Declared Granted True) sample_tv (sample_tv 2025 11 25 18 30)
         [milk, call_task] start
       = Returned \<lparr>notified = {7, 11}, toasts = [milk, call_task], browser = [milk, call_task]\<rparr>"
proof -
  have 1: "fires sample_tv (sample_tv 2025 11 25 18 30) start milk"
    "fires sample_tv (sample_tv 2025 11 25 18 30) start call_task"
    by (simp_all add: fires_def milk_def call_task_def start_def parse_milk)
  have 2: "checkDueTask Undeclared sample_tv (sample_tv 2025 11 25 18 30) start milk
       = Thrown ReferenceError \<lparr>notified = {}, toasts = [milk], browser = []\<rparr>"
    using milk_due[of 0 start] by (simp add: start_def)
  have 3: "checkDueTasks Undeclared sample_tv (sample_tv 2025 11 25 18 30) [milk, call_task] start
       = Thrown ReferenceError \<lparr>notified = {}, toasts = [milk], browser = []\<rparr>"
    by (simp add: checkDueTasks_def 2)
  have 4: "checkDueTasks (Declared Granted True) sample_tv (sample_tv 2025 11 25 18 30)
         [milk, call_task] start
       = Returned \<lparr>notified = {7, 11}, toasts = [milk, call_task], browser = [milk, call_task]\<rparr>"
    by (simp add: checkDueTasks_def checkDueTask_def sendNotification_def showToast_def
        getTime_def milk_def call_task_def start_def parse_milk insert_commute)
  show ?thesis by (intro conjI 1 2 3 4)
qed

text \<open>
  Claim C1, on a host where \<open>Notification\<close> is not declared. Three ticks one second
  apart, all within five seconds of the due instant of an open task: the task is
  reminded of on every tick, and its id never enters the fired set. On a host where the
  call returns, the same ticks remind of it once.
\<close>

theorem reminded_on_every_tick:
  "session sample_tv
      [(Undeclared, sample_tv 2025 11 25 18 30, [milk]),
       (Undeclared, sample_tv 2025 11 25 18 30 + 1000, [milk]),
       (Undeclared, sample_tv 2025 11 25 18 30 + 2000, [milk])] start
     = \<lparr>notified = {}, toasts = [milk, milk, milk], browser = []\<rparr>
   \<and> \<not> distinct (map task_id (toasts (session sample_tv
      [(Undeclared, sample_tv 2025 11 25 18 30, [milk]),
       (Undeclared, sample_tv 2025 11 25 18 30 + 1000, [milk]),
       (Undeclared, sample_tv 2025 11 25 18 30 + 2000, [milk])] start)))
   \<and> session sample_tv
      [(Declared Default True, sample_tv 2025 11 25 18 30, [milk]),
       (Declared Default True, sample_tv 2025 11 25 18 30 + 1000, [milk]),
       (Declared Default True, sample_tv 2025 11 25 18 30 + 2000, [milk])] start
     = \<lparr>notified = {7}, toasts = [milk], browser = []\<rparr>"
proof -
  have 1: "session sample_tv
      [(Undeclared, sample_tv 2025 11 25 18 30, [milk]),
       (Undeclared, sample_tv 2025 11 25 18 30 + 1000, [milk]),
       (Undeclared, sample_tv 2025 11 25 18 30 + 2000, [milk])] start
     = \<lparr>notified = {}, toasts = [milk, milk, milk], browser = []\<rparr>"
    using milk_due[of 0] milk_due[of 1000] milk_due[of 2000]
    by (simp add: session_def checkDueTasks_def start_def)
  have 2: "session sample_tv
      [(Declared Default True, sample_tv 2025 11 25 18 30, [milk]),
       (Declared Default True, sample_tv 2025 11 25 18 30 + 1000, [milk]),
       (Declared Default True, sample_tv 2025 11 25 18 30 + 2000, [milk])] start
     = \<lparr>notified = {7}, toasts = [milk], browser = []\<rparr>"
    by (simp add: session_def checkDueTasks_def checkDueTask_def sendNotification_def
        showToast_def getTime_def milk_def start_def parse_milk)
  show ?thesis
    unfolding 1 by (intro conjI refl 2) (simp add: milk_def)
qed


text \<open>
  Claim C4. Whenever \<open>extractDateTime\<close> returns a string, \<open>parseUserDate\<close> of that string
  is a date with concrete fields: neither null nor the invalid date.
\<close>

theorem extract_then_parse:
  assumes "extractDateTime s = Some m"
  shows "\<exists>y mo d h mi. parseUserDate (Some m) = Some (Date y mo d h mi)"
proof -
  from assms obtain mm where mm: "match dateTimeRegex s = Some mm" "whole mm = m"
    by (rule extractDateTime_Some)
  from match_dateTime_Some(2)[OF mm(1)] mm(2) have dt: "accepted_date_time m" by simp
  then have "m \<noteq> []" by (rule accepted_nonempty)
  moreover from accepted_has_segment[OF dt] obtain dm where "match dateMatchRegex m = Some dm"
    using match_dateMatch_None[of m] by (cases "match dateMatchRegex m") auto
  ultimately show ?thesis by (rule parseUserDate_valid)
qed

theorem extract_then_parse_witness:
  "extractDateTime (js ''Buy milk 25/12/2025 6:30 PM'') = Some (js ''25/12/2025 6:30 PM'')
   \<and> (\<exists>y mo d h mi.
         parseUserDate (Some (js ''25/12/2025 6:30 PM'')) = Some (Date y mo d h mi))"
  using extract_then_parse[OF milk_extract] milk_extract by simp

lemma parseable_step:
  "parseable_sent st \<Longrightarrow> parseable_sent (state_of (checkDueTask h tv now st t))"
  by (cases h)
     (auto simp: parseable_sent_def checkDueTask_def sendNotification_def showToast_def Let_def
        split: option.splits)

lemma parseable_tick:
  "parseable_sent st \<Longrightarrow> parseable_sent (state_of (checkDueTasks h tv now tasks st))"
  unfolding checkDueTasks_def by (rule forEach_invariant) (auto intro: parseable_step)

lemma parseable_session: "parseable_sent st \<Longrightarrow> parseable_sent (session tv ticks st)"
  unfolding session_def by (rule foldl_invariant) (auto intro: parseable_tick)

lemma unparseable_tick:
  "\<forall>t\<in>set tasks. parseUserDate (userDate t) = None \<Longrightarrow>
     checkDueTasks h tv now tasks st = Returned st"
  unfolding checkDueTasks_def by (induction tasks) (simp_all add: checkDueTask_def)

text \<open>
  Claim C9. \<open>parseUserDate\<close> returns null exactly when its argument is absent, empty, or
  has no substring of the shape of a date segment. For a task whose stored date does not
  parse, the check returns with the state of the reminder loop unchanged, on every host
  and at every tick: nothing is thrown. A tick over tasks none of which parses returns
  with the state unchanged, and such a task is never among the tasks reminded of in a
  session, in the page or by the browser.
\<close>

theorem unparseable_never_fires:
  "(parseUserDate u = None \<longleftrightarrow>
      u = None \<or> u = Some [] \<or> (\<exists>s. u = Some s \<and> \<not> occurs date_segment s))
   \<and> (parseUserDate (userDate t) = None \<longrightarrow> checkDueTask h tv now st t = Returned st)
   \<and> ((\<forall>t\<in>set tasks. parseUserDate (userDate t) = None)
        \<longrightarrow> checkDueTasks h tv now tasks st = Returned st)
   \<and> (parseUserDate (userDate t) = None \<longrightarrow>
        t \<notin> set (toasts (session tv ticks start)) \<and> t \<notin> set (browser (session tv ticks start)))"
proof (intro conjI impI)
  show "parseUserDate u = None \<longleftrightarrow>
      u = None \<or> u = Some [] \<or> (\<exists>s. u = Some s \<and> \<not> occurs date_segment s)"
    by (simp only: parseUserDate_None_iff match_dateMatch_None)
  show "checkDueTask h tv now st t = Returned st" if "parseUserDate (userDate t) = None"
    using that by (simp add: checkDueTask_def)
  show "checkDueTasks h tv now tasks st = Returned st"
    if "\<forall>t\<in>set tasks. parseUserDate (userDate t) = None"
    using that by (rule unparseable_tick)
  have "parseable_sent start" by (simp add: parseable_sent_def start_def)
  then have "parseable_sent (session tv ticks start)" by (rule parseable_session)
  then have inv: "parseUserDate (userDate x) \<noteq> None"
    if "x \<in> set (toasts (session tv ticks start)) \<union> set (browser (session tv ticks start))"
    for x
    using that unfolding parseable_sent_def by blast
  show "t \<notin> set (toasts (session tv ticks start))"
    "t \<notin> set (browser (session tv ticks start))" if "parseUserDate (userDate t) = None"
    using that inv[of t] by auto
qed

theorem unparseable_never_fires_witness:
  "parseUserDate (Some (js ''tomorrow'')) = None
   \<and> \<not> occurs date_segment (js ''tomorrow'')
   \<and> checkDueTask Undeclared sample_tv 0 start (milk\<lparr>userDate := Some (js ''tomorrow'')\<rparr>)
       = Returned start
   \<and> checkDueTasks Undeclared sample_tv 0 [milk\<lparr>userDate := Some (js ''tomorrow'')\<rparr>] start
       = Returned start
   \<and> milk\<lparr>userDate := Some (js ''tomorrow'')\<rparr>
        \<notin> set (toasts (session sample_tv
              [(Undeclared, 0, [milk\<lparr>userDate := Some (js ''tomorrow'')\<rparr>])] start))
   \<and> milk\<lparr>userDate := Some (js ''tomorrow'')\<rparr>
        \<notin> set (browser (session sample_tv
              [(Undeclared, 0, [milk\<lparr>userDate := Some (js ''tomorrow'')\<rparr>])] start))"
  using unparseable_never_fires[of "Some (js ''tomorrow'')"
      "milk\<lparr>userDate := Some (js ''tomorrow'')\<rparr>" Undeclared sample_tv 0 start
      "[milk\<lparr>userDate := Some (js ''tomorrow'')\<rparr>]"
      "[(Undeclared, 0, [milk\<lparr>userDate := Some (js ''tomorrow'')\<rparr>])]"]
  by (simp add: parse_tomorrow tomorrow_nonempty)

lemma extractDateTime_None_iff: "extractDateTime s = None \<longleftrightarrow> \<not> occurs date_time s"
proof (cases "match dateTimeRegex s")
  case None
  then show ?thesis
    by (simp add: extractDateTime_def occurs_date_time_iff match_dateTime_None[symmetric])
next
  case (Some m)
  from match_dateTime_Some(3)[OF Some] Some show ?thesis
    by (simp add: occurs_date_time_iff match_dateTime_None[symmetric])
qed

text \<open>
  Claim C6. When a task is created: if the input has a substring of the date shape (a
  date segment with optional time), the stored date is the substring that
  \<open>extractDateTime\<close> returns; if it has none but has a standalone time with meridiem
  marker, the stored date is today's date as \<open>getTodayDate\<close> formats it, without a time;
  if it has neither, no date is stored. Today's date, for a calendar day with a year of
  three or four digits, parses back to that day at 00:00.
\<close>

theorem addTask_userDate:
  assumes "addTask today s = Some r"
  shows "(\<forall>m. extractDateTime s = Some m \<longrightarrow> row_userDate r = Some m)
   \<and> (occurs date_time s \<longrightarrow> extractDateTime s \<noteq> None)
   \<and> (\<not> occurs date_time s \<and> standalone_time s
        \<longrightarrow> row_userDate r = Some (getTodayDate today))
   \<and> (\<not> occurs date_time s \<and> \<not> standalone_time s \<longrightarrow> row_userDate r = None)
   \<and> (getDate today < 100 \<and> getMonth today < 99
        \<and> 100 \<le> getFullYear today \<and> getFullYear today < 10000
        \<longrightarrow> parseUserDate (Some (getTodayDate today))
            = Some (Date (int (getFullYear today)) (int (getMonth today))
                 (int (getDate today)) 0 0))"
proof -
  from assms have r: "row_userDate r =
      (if extractDateTime s = None \<and> extractTimeOnly s \<noteq> None
       then Some (getTodayDate today) else extractDateTime s)"
    by (auto simp: addTask_def Let_def split: if_splits)
  have 1: "\<forall>m. extractDateTime s = Some m \<longrightarrow> row_userDate r = Some m"
    by (simp add: r)
  have 2: "occurs date_time s \<longrightarrow> extractDateTime s \<noteq> None"
    by (simp add: extractDateTime_None_iff)
  have 3: "\<not> occurs date_time s \<and> standalone_time s
        \<longrightarrow> row_userDate r = Some (getTodayDate today)"
    using extractTimeOnly_iff[of s] by (simp add: r extractDateTime_None_iff)
  have 4: "\<not> occurs date_time s \<and> \<not> standalone_time s \<longrightarrow> row_userDate r = None"
    using extractTimeOnly_iff[of s] extractDateTime_None_iff[of s] by (simp add: r)
  have 5: "getDate today < 100 \<and> getMonth today < 99
        \<and> 100 \<le> getFullYear today \<and> getFullYear today < 10000
        \<longrightarrow> parseUserDate (Some (getTodayDate today))
            = Some (Date (int (getFullYear today)) (int (getMonth today))
                 (int (getDate today)) 0 0)"
    by (intro impI, elim conjE) (rule today_roundtrip)
  show ?thesis
    by (rule conjI[OF 1], rule conjI[OF 2], rule conjI[OF 3], rule conjI[OF 4], rule 5)
qed

theorem addTask_userDate_witness:
  "row_userDate (the (addTask \<lparr>getDate = 2, getMonth = 10, getFullYear = 2026\<rparr>
        (js ''Buy milk 25/12/2025 6:30 PM''))) = Some (js ''25/12/2025 6:30 PM'')
   \<and> \<not> occurs date_time (js ''Call mom 9:00 AM'') \<and> standalone_time (js ''Call mom 9:00 AM'')
   \<and> row_userDate (the (addTask \<lparr>getDate = 2, getMonth = 10, getFullYear = 2026\<rparr>
        (js ''Call mom 9:00 AM''))) = Some (js ''02-11-2026'')
   \<and> \<not> occurs date_time (js ''Walk dog'') \<and> \<not> standalone_time (js ''Walk dog'')
   \<and> row_userDate (the (addTask \<lparr>getDate = 2, getMonth = 10, getFullYear = 2026\<rparr>
        (js ''Walk dog''))) = None
   \<and> parseUserDate (Some (js ''02-11-2026'')) = Some (Date 2026 10 2 0 0)"
proof -
  let ?today = "\<lparr>getDate = 2, getMonth = 10, getFullYear = 2026\<rparr>"
  have 1: "addTask ?today (js ''Buy milk 25/12/2025 6:30 PM'')
             = Some (the (addTask ?today (js ''Buy milk 25/12/2025 6:30 PM'')))"
    and 2: "addTask ?today (js ''Call mom 9:00 AM'')
             = Some (the (addTask ?today (js ''Call mom 9:00 AM'')))"
    and 3: "addTask ?today (js ''Walk dog'') = Some (the (addTask ?today (js ''Walk dog'')))"
    by (simp_all add: addTask_def not_blank Let_def)
  have m1: "\<not> occurs date_time (js ''Call mom 9:00 AM'')"
    using call_mom_date by (simp add: extractDateTime_None_iff)
  have m2: "standalone_time (js ''Call mom 9:00 AM'')"
    using call_mom_time extractTimeOnly_iff[of "js ''Call mom 9:00 AM''"] by simp
  have w1: "\<not> occurs date_time (js ''Walk dog'')"
    using walk_dog(1) by (simp add: extractDateTime_None_iff)
  have w2: "\<not> standalone_time (js ''Walk dog'')"
    using walk_dog(2) extractTimeOnly_iff[of "js ''Walk dog''"] by simp
  note a = addTask_userDate[OF 1, THEN conjunct1, rule_format, OF milk_extract]
  note b = addTask_userDate[OF 2, THEN conjunct2, THEN conjunct2, THEN conjunct1, rule_format,
      OF conjI[OF m1 m2]]
  note c = addTask_userDate[OF 3, THEN conjunct2, THEN conjunct2, THEN conjunct2, THEN conjunct1,
      rule_format, OF conjI[OF w1 w2]]
  note d = addTask_userDate[OF 3, THEN conjunct2, THEN conjunct2, THEN conjunct2, THEN conjunct2,
      rule_format]
  have b': "row_userDate (the (addTask ?today (js ''Call mom 9:00 AM''))) = Some (js ''02-11-2026'')"
    using b by (simp add: today_example)
  have d': "parseUserDate (Some (js ''02-11-2026'')) = Some (Date 2026 10 2 0 0)"
    using d by (simp add: today_example)
  show ?thesis
    by (rule conjI[OF a], rule conjI[OF m1], rule conjI[OF m2], rule conjI[OF b'],
        rule conjI[OF w1], rule conjI[OF w2], rule conjI[OF c], rule d')
qed

text \<open>
  Claim C3, amended. The stored text is the input with the first date (with optional
  time) cut out, the leftmost substring of that shape as \<open>extractDateTime\<close> finds it, and
  the result trimmed; when the input has no date it is the trimmed input, so a
  standalone time stays in the text.
\<close>

theorem addTask_text:
  assumes "addTask today s = Some r"
  shows "row_text r = removeDateTime s
   \<and> (extractDateTime s = None \<longrightarrow> row_text r = trim s)
   \<and> (\<forall>m. extractDateTime s = Some m \<longrightarrow>
         (\<exists>pre post. s = pre @ m @ post \<and> row_text r = trim (pre @ post)
            \<and> (\<forall>pre' w post'. s = pre' @ w @ post' \<and> date_time w
                  \<longrightarrow> length pre \<le> length pre')))"
proof -
  from assms have r: "row_text r = removeDateTime s"
    by (auto simp: addTask_def Let_def split: if_splits)
  show ?thesis
  proof (cases "match dateTimeRegex s")
    case None
    then have "extractDateTime s = None" "removeDateTime s = trim s"
      by (simp_all add: extractDateTime_def removeDateTime_def)
    with r show ?thesis by simp
  next
    case (Some mm)
    have 1: "s = before mm @ whole mm @ after mm" by (rule match_dateTime_Some(1)[OF Some])
    have 2: "extractDateTime s = Some (whole mm)" by (rule match_dateTime_Some(3)[OF Some])
    have 3: "row_text r = trim (before mm @ after mm)"
      using r match_dateTime_Some(4)[OF Some] by simp
    have 4: "\<forall>pre' w post'. s = pre' @ w @ post' \<and> date_time w
               \<longrightarrow> length (before mm) \<le> length pre'"
      by (intro allI impI, elim conjE)
         (erule match_dateTime_Some(5)[OF Some], erule date_time_accepted)
    have "\<exists>pre post. s = pre @ whole mm @ post \<and> row_text r = trim (pre @ post)
            \<and> (\<forall>pre' w post'. s = pre' @ w @ post' \<and> date_time w
                  \<longrightarrow> length pre \<le> length pre')"
      by (rule exI[of _ "before mm"], rule exI[of _ "after mm"]) (intro conjI 1 3 4)
    with 2 r show ?thesis by simp
  qed
qed

theorem addTask_text_witness:
  "row_text (the (addTask \<lparr>getDate = 2, getMonth = 10, getFullYear = 2026\<rparr>
        (js ''Buy milk 25/12/2025 6:30 PM''))) = js ''Buy milk''
   \<and> row_text (the (addTask \<lparr>getDate = 2, getMonth = 10, getFullYear = 2026\<rparr>
        (js ''Walk dog''))) = trim (js ''Walk dog'')"
proof -
  let ?today = "\<lparr>getDate = 2, getMonth = 10, getFullYear = 2026\<rparr>"
  have 1: "addTask ?today (js ''Buy milk 25/12/2025 6:30 PM'')
             = Some (the (addTask ?today (js ''Buy milk 25/12/2025 6:30 PM'')))"
    and 3: "addTask ?today (js ''Walk dog'') = Some (the (addTask ?today (js ''Walk dog'')))"
    by (simp_all add: addTask_def not_blank Let_def)
  from addTask_text[OF 1, THEN conjunct1]
    addTask_text[OF 3, THEN conjunct2, THEN conjunct1, rule_format, OF walk_dog(1)]
  show ?thesis
    by (simp only: milk_remove simp_thms)
qed

text \<open>
  The claim as stated fails for an input whose only recognized substring is a
  standalone time: the time is recognized and today's date is stored, but the stored
  text still holds the time.
\<close>

theorem addTask_text_counterexample:
  "extractTimeOnly (js ''Call mom 9:00 AM'') = Some (js ''9:00 AM'')
   \<and> addTask \<lparr>getDate = 2, getMonth = 10, getFullYear = 2026\<rparr> (js ''Call mom 9:00 AM'')
       = Some \<lparr>row_text = js ''Call mom 9:00 AM'', row_userDate = Some (js ''02-11-2026''),
               row_completed = False\<rparr>"
  by (simp add: addTask_def call_mom_time call_mom_date call_mom_text today_example not_blank)

section \<open>What the parser reads from an arbitrary string\<close>

lemma scan_first:
  assumes first: "\<And>pre' w post'. pre @ v = pre' @ w @ post' \<Longrightarrow> w \<in> lang r
                     \<Longrightarrow> length pre \<le> length pre'"
    and head: "ms r (last_opt pre, v, []) = (pv, rs', cp) # others"
  shows "match r (pre @ v)
           = Some \<lparr>before = pre, whole = take (length v - length rs') v, after = rs', groups = cp\<rparr>"
proof -
  have "scan r [] (pre @ v) = scan r ([] @ pre) v"
  proof (rule scan_skip)
    fix u1 u2 assume u: "pre = u1 @ u2" "u2 \<noteq> []"
    show "ms r (last_opt ([] @ u1), u2 @ v, []) = []"
    proof (cases "ms r (last_opt ([] @ u1), u2 @ v, [])")
      case Nil
      then show ?thesis .
    next
      case (Cons st others')
      obtain pv1 rs1 cp1 where "st = (pv1, rs1, cp1)" by (cases st)
      with Cons have "(pv1, rs1, cp1) \<in> set (ms r (last_opt ([] @ u1), u2 @ v, []))" by simp
      from ms_sound[OF this] obtain w where w: "w \<in> lang r" "u2 @ v = w @ rs1" by blast
      from u(1) w(2) have "pre @ v = u1 @ w @ rs1" by simp
      from first[OF this w(1)] u show ?thesis by simp
    qed
  qed
  with scan_Cons[OF head] show ?thesis by (simp add: match_def)
qed

lemma match_dateMatch_first:
  assumes s: "s = pre @ d @ a # mo @ b # y @ post"
    and d: "digit_run 1 2 d" and a: "is_sep a" and mo: "digit_run 1 2 mo" and b: "is_sep b"
    and y: "digit_run 2 4 y" and mx: "length y = 4 \<or> post = [] \<or> \<not> is_digit (hd post)"
    and first: "\<And>pre' w post'. s = pre' @ w @ post' \<Longrightarrow> date_segment w
                  \<Longrightarrow> length pre \<le> length pre'"
  shows "match dateMatchRegex s
           = Some \<lparr>before = pre, whole = d @ a # mo @ b # y, after = post,
                   groups = [(3, y), (2, mo), (1, d)]\<rparr>"
proof -
  from dateMatch_head[OF d a mo b y mx, of "last_opt pre" "[]"] obtain pv' others where
    h: "ms dateMatchRegex (last_opt pre, d @ a # mo @ b # y @ post, [])
          = (pv', post, [(3, y), (2, mo), (1, d)]) # others"
    by auto
  have "match dateMatchRegex (pre @ d @ a # mo @ b # y @ post)
      = Some \<lparr>before = pre,
              whole = take (length (d @ a # mo @ b # y @ post) - length post) (d @ a # mo @ b # y @ post),
              after = post, groups = [(3, y), (2, mo), (1, d)]\<rparr>"
  proof (rule scan_first[OF _ h])
    fix pre' w post'
    assume "pre @ d @ a # mo @ b # y @ post = pre' @ w @ post'" "w \<in> lang dateMatchRegex"
    then show "length pre \<le> length pre'"
      using first[of pre' w post'] s by (simp only: lang_dateMatchRegex)
  qed
  moreover have "take (length (d @ a # mo @ b # y @ post) - length post) (d @ a # mo @ b # y @ post)
      = d @ a # mo @ b # y"
    by simp
  ultimately show ?thesis using s by simp
qed

lemma meridiem_marker_Cons:
  "meridiem_marker (c1 # c2 # r) \<longleftrightarrow> r = [] \<and> (ci 65 c1 \<or> ci 80 c1) \<and> ci 77 c2"
  "\<not> meridiem_marker []" "\<not> meridiem_marker [c]"
  by (auto simp: meridiem_marker_def)

lemma ms_meridiem_take:
  "ms meridiem (pv, r, cp)
     = (if meridiem_marker (take 2 r) then [(Some (r ! 1), drop 2 r, cp)] else [])"
proof (cases r)
  case Nil
  then show ?thesis by (simp add: meridiem_def meridiem_marker_Cons)
next
  case (Cons c1 r1)
  show ?thesis
  proof (cases r1)
    case Nil
    with Cons show ?thesis by (simp add: meridiem_def meridiem_marker_Cons)
  next
    case (Cons c2 r2)
    have "\<not> (ci 65 c1 \<and> ci 80 c1)" by (auto simp: ci_def)
    with Cons \<open>r = c1 # r1\<close> show ?thesis
      by (auto simp: meridiem_def meridiem_marker_Cons)
  qed
qed

lemma marker_take2: "meridiem_marker (take 2 r) \<Longrightarrow> 2 \<le> length r \<and> take 2 r \<noteq> []"
  by (cases r; cases "tl r") (auto simp: meridiem_marker_Cons)

lemma opt_marker_head:
  "\<exists>pv' rs' others. ms (Opt (Group 3 meridiem)) (pv, r, cp)
      = (pv', rs', (if meridiem_marker (take 2 r) then (3, take 2 r) # cp else cp)) # others"
proof (cases "meridiem_marker (take 2 r)")
  case True
  from marker_take2[OF True] have "take (length r - (length r - 2)) r = take 2 r" by simp
  with True show ?thesis
    by (simp add: ms_Opt ms_meridiem_take del: ms.simps(4))
next
  case False
  then show ?thesis by (simp add: ms_Opt ms_meridiem_take del: ms.simps(4))
qed

lemma marker_no_space_first:
  assumes "r \<noteq> []" "is_space (hd r)"
  shows "\<not> meridiem_marker (take 2 r)"
proof
  assume m: "meridiem_marker (take 2 r)"
  then obtain c1 c2 where "take 2 r = [c1, c2]" "ci 65 c1 \<or> ci 80 c1"
    by (auto simp: meridiem_marker_def)
  with assms have "is_space c1" "ci 65 c1 \<or> ci 80 c1" by (cases r; auto)+
  with marker_not_space show False by blast
qed

lemma time_tail_general:
  "\<exists>pv' rs' others.
      ms (Seq (Opt (Cls is_space)) (Opt (Group 3 meridiem))) (pv, rest, cp)
        = (pv', rs', (if marker_after rest = [] then cp else (3, marker_after rest) # cp)) # others"
proof (cases "rest \<noteq> [] \<and> is_space (hd rest)")
  case True
  then obtain x r where r: "rest = x # r" and x: "is_space x" by (cases rest) auto
  from marker_no_space_first[of rest] True have no: "\<not> meridiem_marker (take 2 rest)" by simp
  have ma: "marker_after rest = (if meridiem_marker (take 2 r) then take 2 r else [])"
    using no x by (simp add: marker_after_def r)
  from x have "ms (Cls is_space) (pv, x # r, cp) = [(Some x, r, cp)]" by simp
  then have "ms (Seq (Opt (Cls is_space)) (Opt (Group 3 meridiem))) (pv, rest, cp)
      = ms (Opt (Group 3 meridiem)) (Some x, r, cp)
        @ ms (Opt (Group 3 meridiem)) (pv, x # r, cp)"
    unfolding r ms.simps(2) ms_Opt(1)[of "Cls is_space"] by (simp del: ms.simps(4))
  moreover from opt_marker_head[of "Some x" r cp] obtain pv' rs' others where
    "ms (Opt (Group 3 meridiem)) (Some x, r, cp)
      = (pv', rs', (if meridiem_marker (take 2 r) then (3, take 2 r) # cp else cp)) # others"
    by blast
  ultimately show ?thesis
    using marker_take2[of r] by (auto simp: ma simp del: ms.simps)
next
  case False
  then have "ms (Cls is_space) (pv, rest, cp) = []" by (cases rest) auto
  then have "ms (Seq (Opt (Cls is_space)) (Opt (Group 3 meridiem))) (pv, rest, cp)
      = ms (Opt (Group 3 meridiem)) (pv, rest, cp)"
    unfolding ms.simps(2) ms_Opt(1)[of "Cls is_space"] by (simp del: ms.simps(4))
  moreover from False have ma: "marker_after rest = (if meridiem_marker (take 2 rest) then take 2 rest else [])"
    by (auto simp: marker_after_def)
  moreover from opt_marker_head[of pv rest cp] obtain pv' rs' others where
    "ms (Opt (Group 3 meridiem)) (pv, rest, cp)
      = (pv', rs', (if meridiem_marker (take 2 rest) then (3, take 2 rest) # cp else cp)) # others"
    by blast
  ultimately show ?thesis
    using marker_take2[of rest] by (auto simp del: ms.simps)
qed

lemma timeMatch_head_general:
  assumes h: "digit_run 1 2 h" and c: "is_colon c" and mi: "digit_run 2 2 mi"
  shows "\<exists>pv' rs' others. ms timeMatchRegex (pv, h @ c # mi @ rest, cp)
           = (pv', rs', (if marker_after rest = [] then [] else [(3, marker_after rest)])
                @ [(2, mi), (1, h)] @ cp) # others"
proof -
  let ?t = "Seq (Opt (Cls is_space)) (Opt (Group 3 meridiem))"
  let ?r2 = "Seq (Group 2 (Rep 2 2 D)) ?t"
  have k: "\<And>r pv' x xs cp'. is_digit x \<Longrightarrow> ms (Seq (Cls is_colon) r) (pv', x # xs, cp') = []"
    using colon_not_digit by auto
  from h c have "ms timeMatchRegex (pv, h @ (c # mi @ rest), cp)
      = ms (Seq (Cls is_colon) ?r2) (lastopt pv h, c # mi @ rest, (1, h) # cp)"
    unfolding timeMatchRegex_def
    by (intro seq_group_digits k) (auto simp: digit_run_def colon_not_digit)
  also from c have "\<dots> = ms ?r2 (Some c, mi @ rest, (1, h) # cp)" by simp
  also from mi have "\<dots> = ms ?t (lastopt (Some c) mi, rest, (2, mi) # (1, h) # cp)"
    by (intro seq_group_exact) (auto simp: digit_run_def)
  finally have "ms timeMatchRegex (pv, h @ c # mi @ rest, cp)
      = ms ?t (lastopt (Some c) mi, rest, (2, mi) # (1, h) # cp)" by simp
  with time_tail_general[of "lastopt (Some c) mi" rest "(2, mi) # (1, h) # cp"]
  show ?thesis by (auto simp del: ms.simps)
qed

lemma clock_time_lang: "clock_time w \<Longrightarrow> w \<in> lang timeMatchRegex"
proof -
  assume "clock_time w"
  then obtain h c mi where "w = h @ c # mi @ [] @ []" "digit_run 1 2 h" "is_colon c" "digit_run 2 2 mi"
    by (auto simp: clock_time_def)
  then show ?thesis
    unfolding lang_timeMatchRegex by (intro exI conjI) (assumption | rule refl | simp)+
qed

lemma lang_time_clock:
  assumes "w \<in> lang timeMatchRegex"
  obtains u v where "w = u @ v" "clock_time u"
proof -
  from assms obtain h c mi sp mer where "w = h @ c # mi @ sp @ mer"
    "digit_run 1 2 h" "is_colon c" "digit_run 2 2 mi"
    unfolding lang_timeMatchRegex by blast
  then have "w = (h @ c # mi) @ (sp @ mer)" "clock_time (h @ c # mi)"
    unfolding clock_time_def by auto
  then show ?thesis by (rule that)
qed

lemma match_timeMatch_first:
  assumes s: "s = pre @ h @ c # mi @ rest"
    and h: "digit_run 1 2 h" and c: "is_colon c" and mi: "digit_run 2 2 mi"
    and first: "\<And>pre' w post'. s = pre' @ w @ post' \<Longrightarrow> clock_time w
                  \<Longrightarrow> length pre \<le> length pre'"
  shows "\<exists>tm. match timeMatchRegex s = Some tm \<and> before tm = pre
           \<and> groups tm = (if marker_after rest = [] then [] else [(3, marker_after rest)])
                @ [(2, mi), (1, h)]"
proof -
  from timeMatch_head_general[OF h c mi, of "last_opt pre" rest "[]"] obtain pv' rs' others where
    hd: "ms timeMatchRegex (last_opt pre, h @ c # mi @ rest, [])
          = (pv', rs', (if marker_after rest = [] then [] else [(3, marker_after rest)])
                @ [(2, mi), (1, h)]) # others"
    by auto
  have "match timeMatchRegex (pre @ h @ c # mi @ rest)
      = Some \<lparr>before = pre,
              whole = take (length (h @ c # mi @ rest) - length rs') (h @ c # mi @ rest),
              after = rs',
              groups = (if marker_after rest = [] then [] else [(3, marker_after rest)])
                @ [(2, mi), (1, h)]\<rparr>"
  proof (rule scan_first[OF _ hd])
    fix pre' w post'
    assume e: "pre @ h @ c # mi @ rest = pre' @ w @ post'" and "w \<in> lang timeMatchRegex"
    from this(2) obtain u v where uv: "w = u @ v" "clock_time u" by (rule lang_time_clock)
    from e uv(1) s have "s = pre' @ u @ (v @ post')" by simp
    from first[OF this uv(2)] show "length pre \<le> length pre'" .
  qed
  with s show ?thesis by simp
qed


lemma meridiem_marker_iff: "meridiem_marker mer \<longleftrightarrow> am_marker mer \<or> pm_marker mer"
  by (auto simp: meridiem_marker_def am_marker_def pm_marker_def js_def ci_def)

lemma hour24_am: "am_marker mer \<Longrightarrow> hour24 k mer = (if k = 12 then 0 else k)"
  by (auto simp: am_marker_def hour24_def js_def ci_def)

lemma hour24_pm: "pm_marker mer \<Longrightarrow> hour24 k mer = (if k = 12 then 12 else k + 12)"
  by (auto simp: pm_marker_def hour24_def js_def ci_def)

lemma marker_after_cases: "marker_after rest = [] \<or> meridiem_marker (marker_after rest)"
  by (simp add: marker_after_def)

lemma first_date_match:
  assumes "first_date s d mo y"
  shows "\<exists>dm. match dateMatchRegex s = Some dm \<and> groups dm = [(3, y), (2, mo), (1, d)]"
    and "digit_run 1 2 d" "digit_run 1 2 mo" "digit_run 2 4 y" "s \<noteq> []"
proof -
  from assms obtain pre a b post where s: "s = pre @ d @ a # mo @ b # y @ post"
    and *: "digit_run 1 2 d" "is_sep a" "digit_run 1 2 mo" "is_sep b" "digit_run 2 4 y"
      "length y = 4 \<or> post = [] \<or> \<not> is_digit (hd post)"
    and first: "\<forall>pre' w post'. s = pre' @ w @ post' \<and> date_segment w \<longrightarrow> length pre \<le> length pre'"
    unfolding first_date_def by blast
  from first have f: "\<And>pre' w post'. s = pre' @ w @ post' \<Longrightarrow> date_segment w
                  \<Longrightarrow> length pre \<le> length pre'" by blast
  have "match dateMatchRegex s
           = Some \<lparr>before = pre, whole = d @ a # mo @ b # y, after = post,
                   groups = [(3, y), (2, mo), (1, d)]\<rparr>"
    by (rule match_dateMatch_first[OF s *]) (rule f, assumption+)
  then show "\<exists>dm. match dateMatchRegex s = Some dm \<and> groups dm = [(3, y), (2, mo), (1, d)]"
    by simp
  from * show "digit_run 1 2 d" "digit_run 1 2 mo" "digit_run 2 4 y" by simp_all
  from s show "s \<noteq> []" by simp
qed

lemma first_time_match:
  assumes "first_time s h mi mer"
  shows "\<exists>tm. match timeMatchRegex s = Some tm
           \<and> groups tm = (if mer = [] then [] else [(3, mer)]) @ [(2, mi), (1, h)]"
    and "digit_run 1 2 h" "digit_run 2 2 mi" "mer = [] \<or> meridiem_marker mer"
proof -
  from assms obtain pre c rest where s: "s = pre @ h @ c # mi @ rest"
    and *: "digit_run 1 2 h" "is_colon c" "digit_run 2 2 mi" and mer: "mer = marker_after rest"
    and first: "\<forall>pre' w post'. s = pre' @ w @ post' \<and> clock_time w \<longrightarrow> length pre \<le> length pre'"
    unfolding first_time_def by blast
  from first have f: "\<And>pre' w post'. s = pre' @ w @ post' \<Longrightarrow> clock_time w
                  \<Longrightarrow> length pre \<le> length pre'" by blast
  have "\<exists>tm. match timeMatchRegex s = Some tm \<and> before tm = pre
           \<and> groups tm = (if marker_after rest = [] then [] else [(3, marker_after rest)])
                @ [(2, mi), (1, h)]"
    by (rule match_timeMatch_first[OF s *]) (rule f, assumption+)
  then obtain tm where "match timeMatchRegex s = Some tm"
    "groups tm = (if mer = [] then [] else [(3, mer)]) @ [(2, mi), (1, h)]"
    unfolding mer by blast
  then show "\<exists>tm. match timeMatchRegex s = Some tm
           \<and> groups tm = (if mer = [] then [] else [(3, mer)]) @ [(2, mi), (1, h)]" by blast
  from * show "digit_run 1 2 h" "digit_run 2 2 mi" by simp_all
  from mer marker_after_cases[of rest] show "mer = [] \<or> meridiem_marker mer" by simp
qed

lemma parse_first_date_only:
  assumes "first_date s d mo y" "\<not> occurs clock_time s"
  shows "parseUserDate (Some s)
           = Some (Date (full_year (digits_val y)) (digits_val mo - 1) (digits_val d) 0 0)"
proof -
  from first_date_match(1)[OF assms(1)] obtain dm where
    dm: "match dateMatchRegex s = Some dm" "groups dm = [(3, y), (2, mo), (1, d)]" by blast
  from assms(2) have "match timeMatchRegex s = None" by (simp add: match_timeMatch_None)
  from parseUserDate_no_time[OF first_date_match(5)[OF assms(1)] dm
      first_date_match(2,3,4)[OF assms(1)] this]
  show ?thesis .
qed

lemma parse_first_date_time:
  assumes "first_date s d mo y" "first_time s h mi mer"
  shows "parseUserDate (Some s)
           = Some (Date (full_year (digits_val y)) (digits_val mo - 1) (digits_val d)
                (hour24 (digits_val h) mer) (digits_val mi))"
proof -
  from first_date_match(1)[OF assms(1)] obtain dm where
    dm: "match dateMatchRegex s = Some dm" "groups dm = [(3, y), (2, mo), (1, d)]" by blast
  from first_time_match(1)[OF assms(2)] obtain tm where
    tm: "match timeMatchRegex s = Some tm"
      "groups tm = (if mer = [] then [] else [(3, mer)]) @ [(2, mi), (1, h)]" by blast
  from tm(2) first_time_match(4)[OF assms(2)]
  have g: "(mer = [] \<and> groups tm = [(2, mi), (1, h)])
      \<or> (meridiem_marker mer \<and> groups tm = [(3, mer), (2, mi), (1, h)])"
    by (cases "mer = []") simp_all
  from parseUserDate_time[OF first_date_match(5)[OF assms(1)] dm
      first_date_match(2,3,4)[OF assms(1)] tm(1) first_time_match(2,3)[OF assms(2)] g]
  show ?thesis .
qed

lemma first_date_exists:
  assumes "occurs date_segment s"
  shows "\<exists>d mo y. first_date s d mo y"
proof -
  from assms obtain dm where dm: "match dateMatchRegex s = Some dm"
    using match_dateMatch_None[of s] by (cases "match dateMatchRegex s") auto
  from dm obtain d a mo b y where g: "whole dm = d @ a # mo @ b # y"
    "digit_run 1 2 d" "is_sep a" "digit_run 1 2 mo" "is_sep b" "digit_run 2 4 y"
    "groups dm = [(3, y), (2, mo), (1, d)]"
    by (rule match_dateMatch_groups)
  from match_Some(1)[OF dm] g(1) have s: "s = before dm @ d @ a # mo @ b # y @ after dm" by simp
  from extend_year[OF g(6), of "after dm"] obtain Y R where
    YR: "y @ after dm = Y @ R" "digit_run 2 4 Y" "length Y = 4 \<or> R = [] \<or> \<not> is_digit (hd R)"
    by blast
  from dateMatch_head[OF g(2-5) YR(2,3), of "last_opt (before dm)" "[]"] obtain pv' others where
    "ms dateMatchRegex (last_opt (before dm), d @ a # mo @ b # Y @ R, [])
       = (pv', R, [(3, Y), (2, mo), (1, d)]) # others" by auto
  moreover from match_Some(3)[OF dm] obtain pv others' where
    "ms dateMatchRegex (last_opt (before dm), whole dm @ after dm, [])
       = (pv, after dm, groups dm) # others'" by blast
  moreover have "whole dm @ after dm = d @ a # mo @ b # Y @ R" using g(1) YR(1) by simp
  ultimately have "Y = y" "R = after dm" using g(7) by simp_all
  with YR(3) have mx: "length y = 4 \<or> after dm = [] \<or> \<not> is_digit (hd (after dm))" by simp
  have first: "\<forall>pre' w post'. s = pre' @ w @ post' \<and> date_segment w
      \<longrightarrow> length (before dm) \<le> length pre'"
  proof (intro allI impI, elim conjE)
    fix pre' w post' assume "s = pre' @ w @ post'" "date_segment w"
    then show "length (before dm) \<le> length pre'"
      using match_Some(4)[OF dm wbfree_patterns(2), of pre' w post']
      by (simp only: lang_dateMatchRegex)
  qed
  have "first_date s d mo y"
    unfolding first_date_def
    by (rule exI[of _ "before dm"], rule exI[of _ a], rule exI[of _ b], rule exI[of _ "after dm"])
       (intro conjI s g(2-6) mx first)
  then show ?thesis by blast
qed

lemma first_time_of_match:
  assumes tm: "match timeMatchRegex s = Some tm"
    and s: "s = before tm @ h @ c # mi @ rest"
    and *: "digit_run 1 2 h" "is_colon c" "digit_run 2 2 mi"
  shows "first_time s h mi (marker_after rest)"
proof -
  have first: "\<forall>pre' w post'. s = pre' @ w @ post' \<and> clock_time w
      \<longrightarrow> length (before tm) \<le> length pre'"
  proof (intro allI impI, elim conjE)
    fix pre' w post' assume "s = pre' @ w @ post'" "clock_time w"
    then show "length (before tm) \<le> length pre'"
      using match_Some(4)[OF tm wbfree_patterns(3), of pre' w post'] clock_time_lang[of w]
      by simp
  qed
  show ?thesis
    unfolding first_time_def
    by (rule exI[of _ "before tm"], rule exI[of _ c], rule exI[of _ rest])
       (intro conjI s * refl first)
qed

lemma first_time_exists:
  assumes "occurs clock_time s"
  shows "\<exists>h mi mer. first_time s h mi mer"
proof -
  from assms obtain tm where tm: "match timeMatchRegex s = Some tm"
    using match_timeMatch_None[of s] by (cases "match timeMatchRegex s") auto
  then obtain h c mi sp mer where t: "whole tm = h @ c # mi @ sp @ mer"
    "digit_run 1 2 h" "is_colon c" "digit_run 2 2 mi"
    by (rule match_timeMatch_groups)
  from match_Some(1)[OF tm] t(1) have "s = before tm @ h @ c # mi @ (sp @ mer @ after tm)" by simp
  from first_time_of_match[OF tm this t(2-4)] show ?thesis by blast
qed


lemma first_date_at_start:
  assumes "digit_run 1 2 d" "is_sep a" "digit_run 1 2 mo" "is_sep b" "digit_run 2 4 y"
    "length y = 4 \<or> post = [] \<or> \<not> is_digit (hd post)"
  shows "first_date (d @ a # mo @ b # y @ post) d mo y"
  unfolding first_date_def
  using assms
  by (intro exI[of _ "[]"] exI[of _ a] exI[of _ b] exI[of _ post]) simp

lemma first_time_example:
  assumes "match timeMatchRegex s \<noteq> None" "before (the (match timeMatchRegex s)) = pre"
    "s = pre @ h @ c # mi @ rest" "digit_run 1 2 h" "is_colon c" "digit_run 2 2 mi"
  shows "first_time s h mi (marker_after rest)"
proof -
  from assms(1) obtain tm where tm: "match timeMatchRegex s = Some tm" by blast
  with assms(2,3) have "s = before tm @ h @ c # mi @ rest" by simp
  from first_time_of_match[OF tm this assms(4-6)] show ?thesis .
qed

lemma example_runs:
  "digit_run 1 2 (js ''31'')" "digit_run 1 2 (js ''01'')" "digit_run 2 4 (js ''26'')"
  "digit_run 2 2 (js ''26'')" "digit_run 1 2 (js ''11'')" "digit_run 2 2 (js ''59'')"
  "digit_run 1 2 (js ''1'')" "digit_run 1 2 (js ''2'')" "digit_run 2 4 (js ''25'')"
  "digit_run 1 2 (js ''12'')" "digit_run 2 2 (js ''05'')"
  "is_sep 45" "is_sep 47" "is_colon 58"
  by (simp_all add: digit_run_def js_def is_digit_def is_sep_def is_colon_def)

lemma example_values:
  "digits_val (js ''31'') = 31" "digits_val (js ''01'') = 1" "digits_val (js ''26'') = 26"
  "digits_val (js ''11'') = 11" "digits_val (js ''59'') = 59"
  "digits_val (js ''1'') = 1" "digits_val (js ''2'') = 2" "digits_val (js ''25'') = 25"
  "digits_val (js ''12'') = 12" "digits_val (js ''05'') = 5"
  by (simp_all add: digits_val_def js_def)

lemma example_markers:
  "marker_after (js '' PM'') = js ''PM''" "marker_after (js ''am'') = js ''am''"
  "pm_marker (js ''PM'')" "am_marker (js ''am'')"
  by (simp_all add: marker_after_def meridiem_marker_Cons pm_marker_def am_marker_def
      js_def ci_def is_space_def)

lemma example_first:
  "first_date (js ''31-01-26 11:59 PM'') (js ''31'') (js ''01'') (js ''26'')"
  "first_time (js ''31-01-26 11:59 PM'') (js ''11'') (js ''59'') (js ''PM'')"
  "first_date (js ''31-01-26'') (js ''31'') (js ''01'') (js ''26'')"
  "\<not> occurs clock_time (js ''31-01-26'')"
  "first_date (js ''1/2/25 12:05am'') (js ''1'') (js ''2'') (js ''25'')"
  "first_time (js ''1/2/25 12:05am'') (js ''12'') (js ''05'') (js ''am'')"
proof -
  have nd: "\<not> is_digit (hd (js '' 11:59 PM''))" "\<not> is_digit (hd (js '' 12:05am''))"
    by (simp_all add: js_def is_digit_def)
  from first_date_at_start[OF example_runs(1,12,2,12,3), of "js '' 11:59 PM''"] nd
  show "first_date (js ''31-01-26 11:59 PM'') (js ''31'') (js ''01'') (js ''26'')"
    by (simp add: js_def)
  from first_date_at_start[OF example_runs(1,12,2,12,3), of "[]"]
  show "first_date (js ''31-01-26'') (js ''31'') (js ''01'') (js ''26'')"
    by (simp add: js_def)
  from first_date_at_start[OF example_runs(7,13,8,13,9), of "js '' 12:05am''"] nd
  show "first_date (js ''1/2/25 12:05am'') (js ''1'') (js ''2'') (js ''25'')"
    by (simp add: js_def)
  have m1: "match timeMatchRegex (js ''31-01-26 11:59 PM'') \<noteq> None"
    "before (the (match timeMatchRegex (js ''31-01-26 11:59 PM''))) = js ''31-01-26 ''"
    by (simp_all add: ev)
  have s1: "js ''31-01-26 11:59 PM'' = js ''31-01-26 '' @ js ''11'' @ 58 # js ''59'' @ js '' PM''"
    by (simp add: js_def)
  from first_time_example[OF m1 s1 example_runs(5,14,6)]
  show "first_time (js ''31-01-26 11:59 PM'') (js ''11'') (js ''59'') (js ''PM'')"
    by (simp only: example_markers)
  have m2: "match timeMatchRegex (js ''1/2/25 12:05am'') \<noteq> None"
    "before (the (match timeMatchRegex (js ''1/2/25 12:05am''))) = js ''1/2/25 ''"
    by (simp_all add: ev)
  have s2: "js ''1/2/25 12:05am'' = js ''1/2/25 '' @ js ''12'' @ 58 # js ''05'' @ js ''am''"
    by (simp add: js_def)
  from first_time_example[OF m2 s2 example_runs(10,14,11)]
  show "first_time (js ''1/2/25 12:05am'') (js ''12'') (js ''05'') (js ''am'')"
    by (simp only: example_markers)
  have "match timeMatchRegex (js ''31-01-26'') = None" by (simp add: ev)
  then show "\<not> occurs clock_time (js ''31-01-26'')" by (simp add: match_timeMatch_None)
qed

text \<open>
  Claim C5. Every string that contains a date segment has a first date, and
  \<open>parseUserDate\<close> returns the date built from it: the day is the number the day digits
  spell, the month is the number of the month digits minus one, the year is the number of
  the year digits with 2000 added when it is below 100, so always for a year of two
  digits. When the string has no clock time, hours and minutes are 0. Otherwise they are
  read from the first clock time of the string: the minutes as they are, the hour
  converted by the meridiem marker after the minutes, in either case of its letters:
  12 AM is 0, 12 PM is 12, any other PM hour gets 12 added, any other AM hour and any
  hour without marker is unchanged. In particular \<open>31-01-26 11:59 PM\<close> parses to year
  2026, month 0, day 31, hour 23, minute 59.
\<close>

theorem parseUserDate_conversion:
  "(occurs date_segment s \<longrightarrow> (\<exists>d mo y. first_date s d mo y))
   \<and> (occurs clock_time s \<longrightarrow> (\<exists>h mi mer. first_time s h mi mer))
   \<and> (first_date s d mo y \<and> \<not> occurs clock_time s \<longrightarrow>
        parseUserDate (Some s)
          = Some (Date (full_year (digits_val y)) (digits_val mo - 1) (digits_val d) 0 0))
   \<and> (first_date s d mo y \<and> first_time s h mi mer \<longrightarrow>
        parseUserDate (Some s)
          = Some (Date (full_year (digits_val y)) (digits_val mo - 1) (digits_val d)
               (hour24 (digits_val h) mer) (digits_val mi))
        \<and> (mer = [] \<or> am_marker mer \<or> pm_marker mer))
   \<and> (digit_run 2 2 y \<longrightarrow> full_year (digits_val y) = digits_val y + 2000)
   \<and> (am_marker mer \<longrightarrow> hour24 12 mer = 0 \<and> (k \<noteq> 12 \<longrightarrow> hour24 k mer = k))
   \<and> (pm_marker mer \<longrightarrow> hour24 12 mer = 12 \<and> (k \<noteq> 12 \<longrightarrow> hour24 k mer = k + 12))
   \<and> hour24 k [] = k
   \<and> parseUserDate (Some (js ''31-01-26 11:59 PM'')) = Some (Date 2026 0 31 23 59)"
proof -
  have 1: "occurs date_segment s \<longrightarrow> (\<exists>d mo y. first_date s d mo y)"
    by (intro impI) (rule first_date_exists)
  have 2: "occurs clock_time s \<longrightarrow> (\<exists>h mi mer. first_time s h mi mer)"
    by (intro impI) (rule first_time_exists)
  have 3: "first_date s d mo y \<and> \<not> occurs clock_time s \<longrightarrow>
        parseUserDate (Some s)
          = Some (Date (full_year (digits_val y)) (digits_val mo - 1) (digits_val d) 0 0)"
    by (intro impI, elim conjE) (rule parse_first_date_only)
  have 4: "first_date s d mo y \<and> first_time s h mi mer \<longrightarrow>
        parseUserDate (Some s)
          = Some (Date (full_year (digits_val y)) (digits_val mo - 1) (digits_val d)
               (hour24 (digits_val h) mer) (digits_val mi))
        \<and> (mer = [] \<or> am_marker mer \<or> pm_marker mer)"
  proof (intro impI, elim conjE, intro conjI)
    assume a: "first_date s d mo y" "first_time s h mi mer"
    then show "parseUserDate (Some s)
          = Some (Date (full_year (digits_val y)) (digits_val mo - 1) (digits_val d)
               (hour24 (digits_val h) mer) (digits_val mi))"
      by (rule parse_first_date_time)
    from first_time_match(4)[OF a(2)] show "mer = [] \<or> am_marker mer \<or> pm_marker mer"
      by (simp add: meridiem_marker_iff)
  qed
  have 5: "digit_run 2 2 y \<longrightarrow> full_year (digits_val y) = digits_val y + 2000"
    by (intro impI) (rule two_digit_year)
  have 6: "am_marker mer \<longrightarrow> hour24 12 mer = 0 \<and> (k \<noteq> 12 \<longrightarrow> hour24 k mer = k)"
    by (simp add: hour24_am)
  have 7: "pm_marker mer \<longrightarrow> hour24 12 mer = 12 \<and> (k \<noteq> 12 \<longrightarrow> hour24 k mer = k + 12)"
    by (simp add: hour24_pm)
  have 8: "hour24 k [] = k" by (simp add: hour24_def)
  show ?thesis
    by (rule conjI[OF 1], rule conjI[OF 2], rule conjI[OF 3], rule conjI[OF 4],
        rule conjI[OF 5], rule conjI[OF 6], rule conjI[OF 7], rule conjI[OF 8],
        rule parse_example)
qed

theorem parseUserDate_conversion_witness:
  "first_date (js ''31-01-26 11:59 PM'') (js ''31'') (js ''01'') (js ''26'')
   \<and> first_time (js ''31-01-26 11:59 PM'') (js ''11'') (js ''59'') (js ''PM'')
   \<and> digit_run 2 2 (js ''26'') \<and> pm_marker (js ''PM'')
   \<and> parseUserDate (Some (js ''31-01-26 11:59 PM'')) = Some (Date 2026 0 31 23 59)
   \<and> first_date (js ''31-01-26'') (js ''31'') (js ''01'') (js ''26'')
   \<and> \<not> occurs clock_time (js ''31-01-26'')
   \<and> parseUserDate (Some (js ''31-01-26'')) = Some (Date 2026 0 31 0 0)
   \<and> first_date (js ''1/2/25 12:05am'') (js ''1'') (js ''2'') (js ''25'')
   \<and> first_time (js ''1/2/25 12:05am'') (js ''12'') (js ''05'') (js ''am'')
   \<and> am_marker (js ''am'')
   \<and> parseUserDate (Some (js ''1/2/25 12:05am'')) = Some (Date 2025 1 1 0 5)"
proof -
  note t1 = parseUserDate_conversion[of "js ''31-01-26 11:59 PM''" "js ''31''" "js ''01''"
      "js ''26''" "js ''11''" "js ''59''" "js ''PM''" 11]
  note t2 = parseUserDate_conversion[of "js ''31-01-26''" "js ''31''" "js ''01''"
      "js ''26''" "js ''11''" "js ''59''" "js ''PM''" 11]
  note t3 = parseUserDate_conversion[of "js ''1/2/25 12:05am''" "js ''1''" "js ''2''"
      "js ''25''" "js ''12''" "js ''05''" "js ''am''" 11]
  note y = t1[THEN conjunct2, THEN conjunct2, THEN conjunct2, THEN conjunct2, THEN conjunct1,
      rule_format, OF example_runs(4)]
  note pm = t1[THEN conjunct2, THEN conjunct2, THEN conjunct2, THEN conjunct2, THEN conjunct2,
      THEN conjunct2, THEN conjunct1, rule_format, OF example_markers(3)]
  note am = t3[THEN conjunct2, THEN conjunct2, THEN conjunct2, THEN conjunct2, THEN conjunct2,
      THEN conjunct1, rule_format, OF example_markers(4)]
  note a = t1[THEN conjunct2, THEN conjunct2, THEN conjunct2, THEN conjunct1, rule_format,
      OF conjI[OF example_first(1,2)], THEN conjunct1]
  note b = t2[THEN conjunct2, THEN conjunct2, THEN conjunct1, rule_format,
      OF conjI[OF example_first(3,4)]]
  note c = t3[THEN conjunct2, THEN conjunct2, THEN conjunct2, THEN conjunct1, rule_format,
      OF conjI[OF example_first(5,6)], THEN conjunct1]
  have a': "parseUserDate (Some (js ''31-01-26 11:59 PM'')) = Some (Date 2026 0 31 23 59)"
    using a y pm by (simp add: example_values)
  have b': "parseUserDate (Some (js ''31-01-26'')) = Some (Date 2026 0 31 0 0)"
    using b y by (simp add: example_values)
  have y25: "full_year 25 = 2025" by (simp add: full_year_def)
  have c': "parseUserDate (Some (js ''1/2/25 12:05am'')) = Some (Date 2025 1 1 0 5)"
    using c am by (simp add: example_values y25)
  show ?thesis
    by (intro conjI example_first example_runs(4) example_markers(3,4) a' b' c')
qed

text \<open>
  Claim C10. \<open>parseUserDate\<close> checks no range. For every string of the stored format, a
  date segment alone or followed by white space and a time with optional meridiem
  marker, whatever its digits are, the result is a date whose fields are the numbers
  read from the digits: day, month minus one, year (plus 2000 below 100), hour (after
  the 12-hour conversion, which adds 12 to any hour other than 12 before PM) and
  minute. Day 99, month 13, minute 99 and hour 13 PM are accepted.
\<close>

theorem parseUserDate_unchecked:
  assumes "digit_run 1 2 d" "is_sep a" "digit_run 1 2 mo" "is_sep b" "digit_run 2 4 y"
  shows "parseUserDate (Some (d @ a # mo @ b # y))
           = Some (Date (full_year (digits_val y)) (digits_val mo - 1) (digits_val d) 0 0)
    \<and> (ws \<noteq> [] \<and> (\<forall>x\<in>set ws. is_space x) \<and> digit_run 1 2 h \<and> is_colon c \<and> digit_run 2 2 mi
         \<and> (sp = [] \<or> (\<exists>x. sp = [x] \<and> is_space x)) \<and> (mer = [] \<or> meridiem_marker mer)
       \<longrightarrow> parseUserDate (Some (d @ a # mo @ b # y @ ws @ h @ c # mi @ sp @ mer))
           = Some (Date (full_year (digits_val y)) (digits_val mo - 1) (digits_val d)
                (hour24 (digits_val h) mer) (digits_val mi)))"
  using parseUserDate_date_only[OF assms] parseUserDate_date_time[OF assms, of ws h c mi sp mer]
  by simp

theorem parseUserDate_unchecked_witness:
  "digit_run 1 2 (js ''99'') \<and> is_sep 47 \<and> digit_run 1 2 (js ''13'') \<and> digit_run 2 4 (js ''2025'')
   \<and> digit_run 1 2 (js ''13'') \<and> is_colon 58 \<and> digit_run 2 2 (js ''99'')
   \<and> is_space 32 \<and> meridiem_marker (js ''PM'')
   \<and> parseUserDate (Some (js ''99/13/2025'')) = Some (Date 2025 12 99 0 0)
   \<and> parseUserDate (Some (js ''99/13/2025 13:99 PM'')) = Some (Date 2025 12 99 25 99)"
proof -
  have 1: "digit_run 1 2 (js ''99'')" "is_sep 47" "digit_run 1 2 (js ''13'')"
    "digit_run 2 4 (js ''2025'')" "is_colon 58" "digit_run 2 2 (js ''99'')" "is_space 32"
    by (simp_all add: digit_run_def js_def is_digit_def is_sep_def is_colon_def is_space_def)
  have 2: "meridiem_marker (js ''PM'')"
    by (simp add: meridiem_marker_def js_def ci_def)
  have 3: "digits_val (js ''99'') = 99" "digits_val (js ''13'') = 13"
    "digits_val (js ''2025'') = 2025"
    by (simp_all add: digits_val_def js_def)
  have 4: "js ''99'' @ 47 # js ''13'' @ 47 # js ''2025'' = js ''99/13/2025''"
    "js ''99'' @ 47 # js ''13'' @ 47 # js ''2025'' @ 32 # js ''13'' @ 58 # js ''99'' @ 32 # js ''PM''
       = js ''99/13/2025 13:99 PM''"
    by (simp_all add: js_def)
  from parseUserDate_unchecked[OF 1(1,2,3,2,4), of "[32]" "js ''13''" 58 "js ''99''" "[32]" "js ''PM''"]
  show ?thesis
    using 1 2 by (simp add: 3 4 full_year_def hour24_table)
qed

section \<open>The filter\<close>

lemma filteredTasks_eq:
  "filteredTasks (js ''all'') ts = ts"
  "filteredTasks (js ''active'') ts = filter (\<lambda>t. \<not> completed t) ts"
  "filteredTasks (js ''completed'') ts = filter completed ts"
  by (simp_all add: filteredTasks_def js_def)

text \<open>
  Claim C8. For the modes \<open>all\<close>, \<open>active\<close> and \<open>completed\<close> the projection is the task
  list filtered by the mode's predicate (every task, the tasks not completed, the
  completed tasks). For every mode it is a subsequence of the task list, in the
  original order, and the tasks it includes and the tasks it leaves out add up to the
  whole list.
\<close>

theorem filteredTasks_projection:
  "filteredTasks (js ''all'') ts = ts
   \<and> filteredTasks (js ''active'') ts = filter (\<lambda>t. \<not> completed t) ts
   \<and> filteredTasks (js ''completed'') ts = filter completed ts
   \<and> subseq (filteredTasks flt ts) ts
   \<and> length (filteredTasks flt ts)
       + length (filter (\<lambda>t. t \<notin> set (filteredTasks flt ts)) ts) = length ts"
proof -
  obtain P where P: "filteredTasks flt ts = filter P ts"
    by (simp add: filteredTasks_def)
  have "filter (\<lambda>t. t \<notin> set (filter P ts)) ts = filter (\<lambda>t. \<not> P t) ts"
    by (rule filter_cong) auto
  then have "length (filteredTasks flt ts)
       + length (filter (\<lambda>t. t \<notin> set (filteredTasks flt ts)) ts) = length ts"
    by (simp add: P sum_length_filter_compl)
  moreover have "subseq (filteredTasks flt ts) ts"
    by (simp add: P)
  ultimately show ?thesis
    by (simp add: filteredTasks_eq)
qed

end
